theory Spec2Isabelle
  imports Main "HOL-Library.AList"
begin

section \<open>Helpers of the module\<close>

text \<open>
  \<^verbatim>\<open>_round_to_multiple(number, multiple, round_up=True)\<close>. Python's \<^verbatim>\<open>//\<close> on integers is
  floor division, which is \<open>div\<close> on \<open>int\<close>. The source assumes positive arguments; the
  theorems below assume a positive \<open>multiple\<close> wherever the quotient matters.
\<close>

definition round_to_multiple :: "int \<Rightarrow> int \<Rightarrow> bool \<Rightarrow> int" where
  "round_to_multiple number multiple round_up =
     (if round_up then number + multiple - 1 else number) div multiple * multiple"

section \<open>Data model\<close>

text \<open>Parameters are objects compared by identity; a parameter is named by a number.\<close>

type_synonym param = nat

datatype dtype = Float32 | Float16 | BFloat16

fun finfo_bits :: "dtype \<Rightarrow> int" where
  "finfo_bits Float32 = 32"
| "finfo_bits Float16 = 16"
| "finfo_bits BFloat16 = 16"

record ParameterFragment =
  param_group_id :: nat
  param_id :: nat
  bucket_id :: nat
  param_range :: "int \<times> int"
  bucket_range :: "int \<times> int"
  in_local_shard :: bool
  shard_range :: "(int \<times> int) option"
  shard_bucket_range :: "(int \<times> int) option"
  shard_param_range :: "(int \<times> int) option"

text \<open>
  \<^verbatim>\<open>StateBucket\<close>: the sizes, the fill level and the fragment list. The device buffers of
  the class hold tensor data only and are kept apart from the mapping.
\<close>

record StateBucket =
  bucket_size :: int
  shard_size :: int
  filled_size :: int
  able_to_fill :: bool
  contiguous_buffer_offset :: int
  fragments :: "ParameterFragment list"

definition new_StateBucket :: "int \<Rightarrow> int \<Rightarrow> int \<Rightarrow> StateBucket" where
  "new_StateBucket bsize ssize offset =
     \<lparr>bucket_size = bsize, shard_size = ssize, filled_size = 0, able_to_fill = True,
      contiguous_buffer_offset = offset, fragments = []\<rparr>"

datatype GradientStatus = READY | PARTIALLY_FILLED | FULLY_FILLED | SYNCING

record 'a GradientBucket =
  grads_shard :: "'a list option"
  grads_bucket :: "'a list option"
  sync_grads_shard :: "'a list option"
  status :: GradientStatus
  grads_generated :: "param set"

definition new_GradientBucket :: "'a GradientBucket" where
  "new_GradientBucket =
     \<lparr>grads_shard = None, grads_bucket = None, sync_grads_shard = None,
      status = READY, grads_generated = {}\<rparr>"

text \<open>
  The optimizer object \<^verbatim>\<open>self\<close>, with the attributes of the parameter objects
  (\<^verbatim>\<open>numel()\<close>, \<^verbatim>\<open>grad\<close>, \<^verbatim>\<open>_pre_forward_hook_is_enabled\<close>) as maps from the parameter.
  \<open>param_fragments p\<close> is \<^verbatim>\<open>self.state[p]["fragments"]\<close>, \<open>None\<close> when the key is absent;
  \<open>grads_buckets\<close> is the \<^verbatim>\<open>defaultdict\<close> \<^verbatim>\<open>self._grads_buckets\<close>, as the list of its items
  in the order of insertion. \<open>status_log\<close> is a history variable, not an attribute of
  the program: every assignment to the status of a gradient bucket appends the bucket's
  key, its status before and its status after. No function reads it.
\<close>

record 'a DistributedFusedAdam =
  alignment :: int
  default_shard_size :: int
  distributed_size :: int
  distributed_rank :: int
  redundant_size :: int
  average_grad_sync :: bool
  greedy_grad_copy :: bool
  overlap_grad_sync :: bool
  overlap_param_sync :: bool
  param_groups :: "param list list"
  buckets :: "StateBucket list"
  param_fragments :: "param \<rightharpoonup> ParameterFragment list"
  grads_buckets :: "(nat \<times> 'a GradientBucket) list"
  status_log :: "(nat \<times> GradientStatus \<times> GradientStatus) list"
  numel :: "param \<Rightarrow> nat"
  grad :: "param \<rightharpoonup> 'a list"
  pre_forward_hook_is_enabled :: "param \<Rightarrow> bool"

text \<open>
  The exceptions that leave the modelled functions: the \<^verbatim>\<open>RuntimeError\<close>s the program
  raises with their messages, and the errors of Python and of the tensor library that
  its own statements can raise.
\<close>

datatype error =
  RuntimeError string | IndexError | KeyError | TypeError | AttributeError | ZeroDivisionError

text \<open>A loop whose body can raise: the first error ends it.\<close>

fun fold_result :: "('s \<Rightarrow> 'x \<Rightarrow> error + 's) \<Rightarrow> 's \<Rightarrow> 'x list \<Rightarrow> error + 's" where
  "fold_result f s [] = Inr s"
| "fold_result f s (x # xs) = (case f s x of Inl e \<Rightarrow> Inl e | Inr s' \<Rightarrow> fold_result f s' xs)"

section \<open>Bucket sizes chosen by the constructor\<close>

text \<open>
  \<^verbatim>\<open>__init__\<close>, "Determine bucket sizes". The quotient
  \<^verbatim>\<open>int(bucket_size / self.distributed_size)\<close> is computed in floating point from
  \<^verbatim>\<open>bucket_cap_mb\<close>; it enters as the integer \<open>raw_shard_size\<close>.
\<close>

definition dtype_size :: "dtype \<Rightarrow> int" where
  "dtype_size grad_sync_dtype = finfo_bits grad_sync_dtype div 8"

definition init_alignment :: "dtype \<Rightarrow> int" where
  "init_alignment grad_sync_dtype = 128 div dtype_size grad_sync_dtype"

definition init_default_shard_size :: "dtype \<Rightarrow> int \<Rightarrow> int" where
  "init_default_shard_size grad_sync_dtype raw_shard_size =
     (let shard_size = raw_shard_size;
          shard_size = round_to_multiple shard_size (init_alignment grad_sync_dtype) False;
          shard_size = max shard_size (init_alignment grad_sync_dtype)
      in shard_size)"

text \<open>
  The optimizer as the constructor leaves it: no bucket, no parameter state, no gradient
  bucket, copying of gradients greedy, the pre-forward hooks disabled.
\<close>

definition init ::
  "dtype \<Rightarrow> int \<Rightarrow> int \<Rightarrow> int \<Rightarrow> int \<Rightarrow> bool \<Rightarrow> bool \<Rightarrow> bool \<Rightarrow> param list list \<Rightarrow>
   (param \<Rightarrow> nat) \<Rightarrow> (param \<rightharpoonup> 'a list) \<Rightarrow> 'a DistributedFusedAdam" where
  "init grad_sync_dtype raw_shard_size dist_size dist_rank red_size avg overlap_grad
        overlap_param groups numel_of grad_of =
     \<lparr>alignment = init_alignment grad_sync_dtype,
      default_shard_size = init_default_shard_size grad_sync_dtype raw_shard_size,
      distributed_size = dist_size,
      distributed_rank = dist_rank,
      redundant_size = red_size,
      average_grad_sync = avg,
      greedy_grad_copy = True,
      overlap_grad_sync = overlap_grad,
      overlap_param_sync = overlap_param,
      param_groups = groups,
      buckets = [],
      param_fragments = Map.empty,
      grads_buckets = [],
      status_log = [],
      numel = numel_of,
      grad = grad_of,
      pre_forward_hook_is_enabled = (\<lambda>_. False)\<rparr>"

section \<open>Fragment mapper\<close>

text \<open>
  The body of the \<^verbatim>\<open>while\<close> loop of \<^verbatim>\<open>_init_param_state\<close> that records one fragment:
  its position within the local shard, by clamping, and the record itself.
\<close>

definition make_fragment ::
  "int \<Rightarrow> nat \<Rightarrow> nat \<Rightarrow> nat \<Rightarrow> int \<Rightarrow> int \<Rightarrow> int \<Rightarrow> int \<Rightarrow> int \<Rightarrow> ParameterFragment" where
  "make_fragment rank gid pid bid ssize param_start param_end bucket_start bucket_end =
     (let shard_id = rank;
          shard_start = bucket_start - ssize * shard_id;
          shard_end = bucket_end - ssize * shard_id;
          shard_start = min (max shard_start 0) ssize;
          shard_end = min (max shard_end 0) ssize;
          in_shard = shard_start < shard_end;
          shard_bucket_start = shard_start + ssize * shard_id;
          shard_bucket_end = shard_bucket_start + shard_end - shard_start;
          shard_param_start = shard_bucket_start - bucket_start + param_start;
          shard_param_end = shard_param_start + shard_end - shard_start
      in \<lparr>param_group_id = gid, param_id = pid, bucket_id = bid,
          param_range = (param_start, param_end),
          bucket_range = (bucket_start, bucket_end),
          in_local_shard = in_shard,
          shard_range = (if in_shard then Some (shard_start, shard_end) else None),
          shard_bucket_range =
            (if in_shard then Some (shard_bucket_start, shard_bucket_end) else None),
          shard_param_range =
            (if in_shard then Some (shard_param_start, shard_param_end) else None)\<rparr>)"

text \<open>
  The \<^verbatim>\<open>while param_start < param_size\<close> loop. The bucket list is never empty inside the
  loop; it is carried as the buckets before the last one (\<open>bs\<close>) and the last one
  (\<open>bucket\<close>), so that \<^verbatim>\<open>len(self.state["buckets"]) - 1\<close> is \<open>length bs\<close>. The loop runs for
  ever when no new bucket can take a fragment; then the value is \<open>None\<close>.
\<close>

partial_function (option) split_param ::
  "int \<Rightarrow> int \<Rightarrow> int \<Rightarrow> int \<Rightarrow> nat \<Rightarrow> nat \<Rightarrow> int \<Rightarrow> StateBucket list \<Rightarrow> StateBucket \<Rightarrow>
   ParameterFragment list \<Rightarrow> int \<Rightarrow>
   (StateBucket list \<times> StateBucket \<times> ParameterFragment list) option" where
  "split_param align dshard dsize rank gid pid param_size bs bucket frags param_start =
     (if param_start < param_size then
        (let bid = length bs;
             bucket_start = round_to_multiple (filled_size bucket) align True;
             fragment_size = min (param_size - param_start) (bucket_size bucket - bucket_start);
             param_end = param_start + fragment_size;
             bucket_end = bucket_start + fragment_size
         in if fragment_size \<le> 0 \<or> \<not> able_to_fill bucket then
              split_param align dshard dsize rank gid pid param_size (bs @ [bucket])
                (new_StateBucket (dshard * dsize) dshard
                   (contiguous_buffer_offset bucket + bucket_size bucket))
                frags param_start
            else
              (let fragment = make_fragment rank gid pid bid (shard_size bucket)
                                param_start param_end bucket_start bucket_end
               in split_param align dshard dsize rank gid pid param_size bs
                    (bucket\<lparr>fragments := fragments bucket @ [fragment],
                            filled_size := bucket_end\<rparr>)
                    (frags @ [fragment]) param_end))
      else Some (bs, bucket, frags))"

declare split_param.simps [code]

text \<open>
  \<^verbatim>\<open>_init_param_state\<close>, "Make sure there is at least one bucket".
\<close>

definition ensure_bucket :: "'a DistributedFusedAdam \<Rightarrow> StateBucket list" where
  "ensure_bucket self =
     (if buckets self = []
      then [new_StateBucket (default_shard_size self * distributed_size self)
              (default_shard_size self) 0]
      else buckets self)"

text \<open>
  \<^verbatim>\<open>_init_param_state\<close>: nothing to do for an initialised parameter; otherwise make sure
  there is a bucket, split the parameter, and store the fragments.
\<close>

definition init_param_state ::
  "'a DistributedFusedAdam \<Rightarrow> param \<Rightarrow> nat \<Rightarrow> nat \<Rightarrow> 'a DistributedFusedAdam option" where
  "init_param_state self p gid pid =
     (case param_fragments self p of
        Some _ \<Rightarrow> Some self
      | None \<Rightarrow>
          (case split_param (alignment self) (default_shard_size self)
                  (distributed_size self) (distributed_rank self) gid pid
                  (int (numel self p)) (butlast (ensure_bucket self))
                  (last (ensure_bucket self)) [] 0 of
             None \<Rightarrow> None
           | Some (bs, bucket, frags) \<Rightarrow>
               Some (self\<lparr>buckets := bs @ [bucket],
                          param_fragments := (param_fragments self)(p \<mapsto> frags)\<rparr>)))"

text \<open>
  \<^verbatim>\<open>init_params\<close>: the dictionary \<^verbatim>\<open>id_map\<close> built from \<^verbatim>\<open>enumerate\<close> (a later entry
  replaces an earlier one), and the loop that initialises every parameter of the list
  that has no fragments yet and is known to the optimizer.
\<close>

definition enumerate_params :: "param list list \<Rightarrow> (param \<times> nat \<times> nat) list" where
  "enumerate_params groups =
     concat (map (\<lambda>(gid, group). map (\<lambda>(pid, p). (p, gid, pid)) (enumerate 0 group))
               (enumerate 0 groups))"

definition id_map :: "param list list \<Rightarrow> param \<rightharpoonup> nat \<times> nat" where
  "id_map groups = map_of (rev (enumerate_params groups))"

fun init_params_loop ::
  "'a DistributedFusedAdam \<Rightarrow> param list \<Rightarrow> 'a DistributedFusedAdam option" where
  "init_params_loop self [] = Some self"
| "init_params_loop self (p # ps) =
     (case id_map (param_groups self) p of
        None \<Rightarrow> init_params_loop self ps
      | Some (gid, pid) \<Rightarrow>
          (case init_param_state self p gid pid of
             None \<Rightarrow> None
           | Some self' \<Rightarrow> init_params_loop self' ps))"

definition parameters :: "'a DistributedFusedAdam \<Rightarrow> param list" where
  "parameters self = concat (param_groups self)"

text \<open>
  The end of \<^verbatim>\<open>init_params\<close>: when every parameter of the optimizer has fragments, the
  utilization \<^verbatim>\<open>filled_size / bucket_size\<close> of the buckets is computed, which is a
  \<^verbatim>\<open>ZeroDivisionError\<close> when the bucket sizes add up to 0. The warning for a utilization
  below 0.7 changes nothing.
\<close>

definition check_utilization ::
  "'a DistributedFusedAdam \<Rightarrow> error + 'a DistributedFusedAdam" where
  "check_utilization self =
     (let num_params = length (parameters self);
          num_initialized_params =
            length (filter (\<lambda>p. param_fragments self p \<noteq> None) (parameters self))
      in if num_initialized_params = num_params then
           (let bucket_size = sum_list (map bucket_size (buckets self)) in
            if bucket_size = 0 then Inl ZeroDivisionError else Inr self)
         else Inr self)"

text \<open>
  \<^verbatim>\<open>init_params(params)\<close>, with \<open>None\<close> for the default of all parameters. It returns at
  once when no parameter of the list is left to initialise.
\<close>

definition init_params ::
  "'a DistributedFusedAdam \<Rightarrow> param list option \<Rightarrow>
   (error + 'a DistributedFusedAdam) option" where
  "init_params self params =
     (let params = (case params of None \<Rightarrow> parameters self | Some ps \<Rightarrow> ps);
          params = filter (\<lambda>p. param_fragments self p = None) params
      in if params = [] then Some (Inr self)
         else (case init_params_loop self params of
                 None \<Rightarrow> None
               | Some self' \<Rightarrow> Some (check_utilization self')))"

text \<open>
  \<^verbatim>\<open>init_params_bucket(params)\<close>: the parameters of the list without fragments get buckets
  of their own. The buckets that exist are marked not fillable, the parameters are
  initialised, and every bucket this has added is marked not fillable and gets, for
  each of the parameters that has no fragment in it, a fragment of length 0 at the end of
  the parameter and of the bucket. A parameter unknown to the optimizer is a
  \<^verbatim>\<open>KeyError\<close>.
\<close>

definition pad_fragment :: "nat \<Rightarrow> nat \<Rightarrow> nat \<Rightarrow> int \<Rightarrow> int \<Rightarrow> ParameterFragment" where
  "pad_fragment gid pid bid param_size bsize =
     \<lparr>param_group_id = gid, param_id = pid, bucket_id = bid,
      param_range = (param_size, param_size), bucket_range = (bsize, bsize),
      in_local_shard = False, shard_range = None, shard_bucket_range = None,
      shard_param_range = None\<rparr>"

definition pad_param ::
  "nat \<Rightarrow> int \<Rightarrow> (nat \<times> nat) list \<Rightarrow> 'a DistributedFusedAdam \<Rightarrow> param \<times> nat \<times> nat \<Rightarrow>
   error + 'a DistributedFusedAdam" where
  "pad_param bid bsize ids_in_bucket self entry =
     (case entry of (p, gid, pid) \<Rightarrow>
        if (gid, pid) \<notin> set ids_in_bucket then
          (let fragment = pad_fragment gid pid bid (int (numel self p)) bsize in
           case param_fragments self p of
             None \<Rightarrow> Inl KeyError
           | Some frags \<Rightarrow>
               Inr (self\<lparr>param_fragments := (param_fragments self)(p \<mapsto> frags @ [fragment]),
                         buckets := (buckets self)
                           [bid := (buckets self ! bid)
                              \<lparr>fragments := fragments (buckets self ! bid) @ [fragment]\<rparr>]\<rparr>))
        else Inr self)"

definition pad_bucket ::
  "(param \<times> nat \<times> nat) list \<Rightarrow> 'a DistributedFusedAdam \<Rightarrow> nat \<Rightarrow>
   error + 'a DistributedFusedAdam" where
  "pad_bucket param_ids self bid =
     (let bucket = buckets self ! bid;
          bsize = bucket_size bucket;
          self = self\<lparr>buckets := (buckets self)[bid := bucket\<lparr>able_to_fill := False\<rparr>]\<rparr>;
          ids_in_bucket = map (\<lambda>f. (param_group_id f, param_id f)) (fragments bucket)
      in fold_result (pad_param bid bsize ids_in_bucket) self param_ids)"

definition init_params_bucket ::
  "'a DistributedFusedAdam \<Rightarrow> param list \<Rightarrow> (error + 'a DistributedFusedAdam) option" where
  "init_params_bucket self params =
     (let params = filter (\<lambda>p. param_fragments self p = None) params in
      if params = [] then Some (Inr self)
      else
        (case those (map (\<lambda>p. map_option (\<lambda>(gid, pid). (p, gid, pid))
                                (id_map (param_groups self) p)) params) of
           None \<Rightarrow> Some (Inl KeyError)
         | Some param_ids \<Rightarrow>
             (let self = self\<lparr>buckets := map (\<lambda>b. b\<lparr>able_to_fill := False\<rparr>) (buckets self)\<rparr>;
                  start_bucket_id = length (buckets self)
              in case init_params self (Some params) of
                   None \<Rightarrow> None
                 | Some (Inl e) \<Rightarrow> Some (Inl e)
                 | Some (Inr self) \<Rightarrow>
                     Some (fold_result (pad_bucket param_ids) self
                             [start_bucket_id..<length (buckets self)]))))"

section \<open>Properties of a layout\<close>

text \<open>
  \<open>chain a rs b\<close>: the intervals \<open>rs\<close>, in their order, are non-empty, start at \<open>a\<close>, each
  starts where the one before ends, and the last ends at \<open>b\<close>.
\<close>

fun chain :: "int \<Rightarrow> (int \<times> int) list \<Rightarrow> int \<Rightarrow> bool" where
  "chain a [] b = (a = b)"
| "chain a ((s, e) # rs) b = (s = a \<and> s < e \<and> chain e rs b)"

text \<open>
  \<open>placed A fill rs final\<close>: the intervals \<open>rs\<close> were put into a bucket one after another,
  each starting at the fill level of that moment rounded up to a multiple of \<open>A\<close>, from
  the fill level \<open>fill\<close> to the fill level \<open>final\<close>.
\<close>

fun placed :: "int \<Rightarrow> int \<Rightarrow> (int \<times> int) list \<Rightarrow> int \<Rightarrow> bool" where
  "placed A fill [] final = (final = fill)"
| "placed A fill ((s, e) # rs) final =
     (s = round_to_multiple fill A True \<and> s < e \<and> placed A e rs final)"

text \<open>The test of the loop for staying in the current bucket, for any parameter left.\<close>

definition has_room :: "int \<Rightarrow> StateBucket \<Rightarrow> bool" where
  "has_room align b \<longleftrightarrow>
     able_to_fill b \<and> round_to_multiple (filled_size b) align True < bucket_size b"

text \<open>
  \<open>extends A b b'\<close>: the bucket \<open>b'\<close> is the bucket \<open>b\<close> with fragments added at its end,
  placed one after another from the fill level of \<open>b\<close> to the fill level of \<open>b'\<close>, none
  of them beyond the size of the bucket, and none at all unless \<open>b\<close> is able to fill.
\<close>

definition extends :: "int \<Rightarrow> StateBucket \<Rightarrow> StateBucket \<Rightarrow> bool" where
  "extends A b b' \<longleftrightarrow>
     (\<exists>added.
        b' = b\<lparr>fragments := fragments b @ added, filled_size := filled_size b'\<rparr> \<and>
        placed A (filled_size b) (map bucket_range added) (filled_size b') \<and>
        (\<forall>f\<in>set added. snd (bucket_range f) \<le> bucket_size b) \<and>
        (added \<noteq> [] \<longrightarrow> able_to_fill b))"

text \<open>
  \<open>mapped A dshard dsize n b R\<close>: in the bucket list \<open>R\<close>, the bucket at \<open>n\<close> extends \<open>b\<close>,
  every later bucket extends a new bucket of the default size, and every bucket from
  \<open>n\<close> on that is not the last one has no room.
\<close>

definition mapped :: "int \<Rightarrow> int \<Rightarrow> int \<Rightarrow> nat \<Rightarrow> StateBucket \<Rightarrow> StateBucket list \<Rightarrow> bool" where
  "mapped A dshard dsize n b R \<longleftrightarrow>
     n < length R \<and> extends A b (R ! n) \<and>
     (\<forall>i. n < i \<and> i < length R \<longrightarrow>
        extends A (new_StateBucket (dshard * dsize) dshard
                     (contiguous_buffer_offset (R ! (i - 1)) + bucket_size (R ! (i - 1))))
          (R ! i)) \<and>
     (\<forall>i. n \<le> i \<and> Suc i < length R \<longrightarrow> \<not> has_room A (R ! i))"

definition sized :: "int \<Rightarrow> int \<Rightarrow> StateBucket \<Rightarrow> bool" where
  "sized dshard dsize b \<longleftrightarrow> shard_size b = dshard \<and> bucket_size b = dshard * dsize"

definition placed_in :: "StateBucket list \<Rightarrow> ParameterFragment \<Rightarrow> bool" where
  "placed_in bks f \<longleftrightarrow> bucket_id f < length bks \<and> f \<in> set (fragments (bks ! bucket_id f))"

section \<open>Example states\<close>

text \<open>
  The scenario of two parameters of 8 and 4 elements, a bucket of 16 elements and the
  alignment unit 4; a parameter of 70 elements over buckets of 32; two parameters of one
  element each.
\<close>

definition scenario :: "int DistributedFusedAdam" where
  "scenario =
     \<lparr>alignment = 4, default_shard_size = 16, distributed_size = 1, distributed_rank = 0,
      redundant_size = 1, average_grad_sync = True, greedy_grad_copy = True,
      overlap_grad_sync = True, overlap_param_sync = False,
      param_groups = [[0, 1]], buckets = [], param_fragments = Map.empty,
      grads_buckets = [], status_log = [], numel = (\<lambda>p. if p = 0 then 8 else 4),
      grad = Map.empty, pre_forward_hook_is_enabled = (\<lambda>_. False)\<rparr>"

definition ex70 :: "int DistributedFusedAdam" where
  "ex70 = init Float32 32 1 0 1 True True False [[0]] (\<lambda>_. 70) Map.empty"

definition ex_small :: "int DistributedFusedAdam" where
  "ex_small = init Float32 32 1 0 1 True True False [[0, 1]] (\<lambda>_. 1) Map.empty"

text \<open>
  Three parameters of 10, 70 and 5 elements with buckets of 64 elements, as the
  constructor makes them for 32-bit gradients on one rank.
\<close>

definition ex_padded :: "int DistributedFusedAdam" where
  "ex_padded = init Float32 64 1 0 1 True True False [[0, 1, 2]]
                 (\<lambda>p. if p = 0 then 10 else if p = 1 then 70 else 5) Map.empty"

text \<open>
  The state \<^verbatim>\<open>init_params_bucket\<close> leaves for the first two of these parameters: two
  buckets marked not fillable, the second with 26 elements unused and a fragment of
  length 0 for the first parameter.
\<close>

definition ex_padded_state :: "int DistributedFusedAdam" where
  "ex_padded_state = projr (the (init_params_bucket ex_padded [0, 1]))"

section \<open>Gradient synchronization engine\<close>

text \<open>
  The engine is modelled for the default \<^verbatim>\<open>contiguous_grad_buffer = False\<close>: every gradient
  bucket owns its buffers, and the branches on the contiguous buffer are the ones taken
  for \<open>False\<close>. Tensors are lists of elements of a type with \<open>0\<close> and \<open>+\<close>.
\<close>

datatype ReduceOp = ReduceOp_AVG | ReduceOp_SUM

text \<open>
  The collectives of the process groups are outside the program. A collective fills a
  tensor the program has allocated; the value it leaves at an index depends on the other
  ranks and enters as a function of the reduction, the local tensor and the index.
  \<open>empty_value\<close> is the content of memory that \<^verbatim>\<open>torch.empty\<close> leaves uninitialised.
\<close>

record 'a collectives =
  reduce_scatter_tensor :: "ReduceOp \<Rightarrow> 'a list \<Rightarrow> nat \<Rightarrow> 'a"
  all_reduce :: "ReduceOp \<Rightarrow> 'a list \<Rightarrow> nat \<Rightarrow> 'a"
  empty_value :: 'a

subsection \<open>Tensors\<close>

text \<open>\<^verbatim>\<open>torch.zeros([n])\<close>, for the sizes of buckets and shards, which are not negative.\<close>

definition zeros :: "int \<Rightarrow> 'a::zero list" where
  "zeros n = replicate (nat n) 0"

text \<open>
  \<^verbatim>\<open>t[a:b]\<close> for \<open>0 \<le> a\<close>, the only slices the engine takes: Python cuts the slice at the
  end of the tensor.
\<close>

definition py_slice :: "'a list \<Rightarrow> int \<Rightarrow> int \<Rightarrow> 'a list" where
  "py_slice xs a b = take (nat (b - a)) (drop (nat a) xs)"

text \<open>
  \<^verbatim>\<open>out.add_(other)\<close> on flat tensors: element by element for equal sizes, a tensor of one
  element is broadcast, any other pair of sizes is an error of the library.
\<close>

definition tensor_add :: "'a::plus list \<Rightarrow> 'a list \<Rightarrow> error + 'a list" where
  "tensor_add out other =
     (if length other = length out then Inr (map2 (+) out other)
      else if length other = 1 then Inr (map (\<lambda>x. x + hd other) out)
      else Inl (RuntimeError ''The size of tensor a must match the size of tensor b''))"

text \<open>\<^verbatim>\<open>t[a:b].add_(other)\<close>: the slice is a view, the sum is written back into \<open>t\<close>.\<close>

definition add_slice :: "'a::plus list \<Rightarrow> int \<Rightarrow> int \<Rightarrow> 'a list \<Rightarrow> error + 'a list" where
  "add_slice t a b other =
     (case tensor_add (py_slice t a b) other of
        Inl e \<Rightarrow> Inl e
      | Inr zs \<Rightarrow> Inr (take (nat a) t @ zs @ drop (nat a + length zs) t))"

subsection \<open>Access to the buckets\<close>

text \<open>
  \<^verbatim>\<open>self._grads_buckets[k]\<close>: the \<^verbatim>\<open>defaultdict\<close> inserts a new \<^verbatim>\<open>GradientBucket\<close> for a
  missing key (\<open>touch\<close>) and returns the bucket of the key (\<open>gbucket\<close>).
\<close>

definition gbucket :: "'a DistributedFusedAdam \<Rightarrow> nat \<Rightarrow> 'a GradientBucket" where
  "gbucket self k =
     (case map_of (grads_buckets self) k of None \<Rightarrow> new_GradientBucket | Some b \<Rightarrow> b)"

definition put_gbucket ::
  "'a DistributedFusedAdam \<Rightarrow> nat \<Rightarrow> 'a GradientBucket \<Rightarrow> 'a DistributedFusedAdam" where
  "put_gbucket self k b = self\<lparr>grads_buckets := AList.update k b (grads_buckets self)\<rparr>"

definition touch :: "'a DistributedFusedAdam \<Rightarrow> nat \<Rightarrow> 'a DistributedFusedAdam" where
  "touch self k = put_gbucket self k (gbucket self k)"

text \<open>\<^verbatim>\<open>bucket.status = s\<close> for the bucket of key \<open>k\<close>, with the entry of the history.\<close>

definition set_status ::
  "'a DistributedFusedAdam \<Rightarrow> nat \<Rightarrow> GradientStatus \<Rightarrow> 'a DistributedFusedAdam" where
  "set_status self k s =
     (put_gbucket self k ((gbucket self k)\<lparr>status := s\<rparr>))
       \<lparr>status_log := status_log self @ [(k, status (gbucket self k), s)]\<rparr>"

text \<open>\<^verbatim>\<open>self.state["buckets"][k]\<close>, an \<^verbatim>\<open>IndexError\<close> beyond the list.\<close>

definition state_bucket :: "'a DistributedFusedAdam \<Rightarrow> nat \<Rightarrow> error + StateBucket" where
  "state_bucket self k =
     (if k < length (buckets self) then Inr (buckets self ! k) else Inl IndexError)"

text \<open>
  The keys of \<^verbatim>\<open>sorted(self._grads_buckets.items())\<close>: the keys of the dictionary the list
  of items stands for, every key once, in increasing order.
\<close>

definition sorted_keys :: "'a DistributedFusedAdam \<Rightarrow> nat list" where
  "sorted_keys self = sort (remdups (map fst (grads_buckets self)))"

subsection \<open>Finishing a synchronization\<close>

text \<open>
  The body of the loop of \<^verbatim>\<open>_finish_bucket_grad_sync\<close> for one bucket: a bucket that is
  \<open>SYNCING\<close> adds the communicated shard to its local shard (or takes it, when it has
  none), drops its buffers and becomes \<open>READY\<close>. Adding \<^verbatim>\<open>None\<close> is a \<^verbatim>\<open>TypeError\<close>.
\<close>

definition finish_bucket ::
  "'a::{zero,plus} DistributedFusedAdam \<Rightarrow> nat \<Rightarrow> error + 'a DistributedFusedAdam" where
  "finish_bucket self k =
     (let bucket = gbucket self k in
      if status bucket = SYNCING then
        (case (case grads_shard bucket of
                 None \<Rightarrow> Inr (sync_grads_shard bucket)
               | Some g \<Rightarrow>
                   (case sync_grads_shard bucket of
                      None \<Rightarrow> Inl TypeError
                    | Some s \<Rightarrow> (case tensor_add g s of Inl e \<Rightarrow> Inl e | Inr g' \<Rightarrow> Inr (Some g')))) of
           Inl e \<Rightarrow> Inl e
         | Inr shard \<Rightarrow>
             Inr (set_status
                    (put_gbucket self k
                       (bucket\<lparr>grads_shard := shard, grads_bucket := None,
                               sync_grads_shard := None\<rparr>))
                    k READY))
      else Inr self)"

definition finish_bucket_grad_sync ::
  "'a::{zero,plus} DistributedFusedAdam \<Rightarrow> error + 'a DistributedFusedAdam" where
  "finish_bucket_grad_sync self = fold_result finish_bucket self (sorted_keys self)"

subsection \<open>Copying a gradient into the buckets\<close>

text \<open>
  The body of the loop of \<^verbatim>\<open>_grad_copy\<close> for one fragment of the parameter \<open>p\<close>.
\<close>

definition grad_copy_fragment ::
  "param \<Rightarrow> 'a::{zero,plus} DistributedFusedAdam \<Rightarrow> ParameterFragment \<Rightarrow>
   error + 'a DistributedFusedAdam" where
  "grad_copy_fragment p self fragment =
     (let k = bucket_id fragment;
          self = touch self k
      in case state_bucket self k of
           Inl e \<Rightarrow> Inl e
         | Inr sb \<Rightarrow>
             (case (if status (gbucket self k) = SYNCING
                    then finish_bucket_grad_sync self else Inr self) of
                Inl e \<Rightarrow> Inl e
              | Inr self \<Rightarrow>
                  (let self = set_status self k PARTIALLY_FILLED;
                       bucket = gbucket self k;
                       buffer = (case grads_bucket bucket of
                                   None \<Rightarrow> zeros (bucket_size sb)
                                 | Some xs \<Rightarrow> xs)
                   in case grad self p of
                        None \<Rightarrow> Inr (put_gbucket self k (bucket\<lparr>grads_bucket := Some buffer\<rparr>))
                      | Some g \<Rightarrow>
                          (case add_slice buffer (fst (bucket_range fragment))
                                  (snd (bucket_range fragment))
                                  (py_slice g (fst (param_range fragment))
                                     (snd (param_range fragment))) of
                             Inl e \<Rightarrow> Inl e
                           | Inr buffer' \<Rightarrow>
                               Inr (put_gbucket self k
                                      (bucket\<lparr>grads_bucket := Some buffer'\<rparr>))))))"

text \<open>
  \<^verbatim>\<open>_grad_copy\<close>, "Initialize parameter if needed": every position of the parameter in the
  parameter groups calls \<^verbatim>\<open>_init_param_state\<close>.
\<close>

fun init_at_positions ::
  "'a DistributedFusedAdam \<Rightarrow> param \<Rightarrow> (param \<times> nat \<times> nat) list \<Rightarrow>
   'a DistributedFusedAdam option" where
  "init_at_positions self p [] = Some self"
| "init_at_positions self p ((q, gid, pid) # rest) =
     (if q = p then
        (case init_param_state self p gid pid of
           None \<Rightarrow> None
         | Some self' \<Rightarrow> init_at_positions self' p rest)
      else init_at_positions self p rest)"

text \<open>
  \<^verbatim>\<open>_grad_copy\<close>. The value is \<open>None\<close> when the initialization does not return, \<open>Inl\<close> of
  the error when an exception leaves the function, \<open>Inr\<close> of the optimizer otherwise.
\<close>

definition grad_copy ::
  "'a::{zero,plus} DistributedFusedAdam \<Rightarrow> param \<Rightarrow> (error + 'a DistributedFusedAdam) option" where
  "grad_copy self p =
     (case (if param_fragments self p = None
            then init_at_positions self p (enumerate_params (param_groups self))
            else Some self) of
        None \<Rightarrow> None
      | Some self \<Rightarrow>
          Some (case param_fragments self p of
                  None \<Rightarrow>
                    Inl (RuntimeError
                           ''Could not initialize DistributedFusedAdam with parameter'')
                | Some frags \<Rightarrow>
                    (case fold_result (grad_copy_fragment p) self frags of
                       Inl e \<Rightarrow> Inl e
                     | Inr self \<Rightarrow> Inr (self\<lparr>grad := (grad self)(p := None)\<rparr>))))"

subsection \<open>Starting a synchronization\<close>

text \<open>
  \<^verbatim>\<open>_start_bucket_grad_sync\<close>, for the keys of the buckets it is given. First the loop
  "Initialize grad state and buffers", then the reduce-scatter over the distributed
  group, then the all-reduce over the redundant group. With one distributed rank the
  communication buffer is the bucket buffer itself, so the all-reduce changes both.
\<close>

definition reduce_op :: "'a DistributedFusedAdam \<Rightarrow> ReduceOp" where
  "reduce_op self = (if average_grad_sync self then ReduceOp_AVG else ReduceOp_SUM)"

definition start_bucket ::
  "'a collectives \<Rightarrow> 'a::{zero,plus} DistributedFusedAdam \<Rightarrow> nat \<Rightarrow>
   error + 'a DistributedFusedAdam" where
  "start_bucket pg self k =
     (case (if status (gbucket self k) = SYNCING
            then finish_bucket_grad_sync self else Inr self) of
        Inl e \<Rightarrow> Inl e
      | Inr self \<Rightarrow>
          (let self = set_status self k SYNCING;
               bucket = (gbucket self k)\<lparr>grads_generated := {}\<rparr>
           in if distributed_size self = 1 then
                Inr (put_gbucket self k (bucket\<lparr>sync_grads_shard := grads_bucket bucket\<rparr>))
              else
                (case grads_bucket bucket of
                   None \<Rightarrow> Inl AttributeError
                 | Some xs \<Rightarrow>
                     (if distributed_size self = 0 then Inl ZeroDivisionError
                      else
                        (let shard_size = int (length xs) div distributed_size self in
                         if shard_size < 0
                         then Inl (RuntimeError
                                     ''Trying to create tensor with negative dimension'')
                         else Inr (put_gbucket self k
                                     (bucket\<lparr>sync_grads_shard :=
                                        Some (replicate (nat shard_size)
                                                (empty_value pg))\<rparr>)))))))"

definition reduce_scatter_bucket ::
  "'a collectives \<Rightarrow> 'a DistributedFusedAdam \<Rightarrow> nat \<Rightarrow> error + 'a DistributedFusedAdam" where
  "reduce_scatter_bucket pg self k =
     (let bucket = gbucket self k in
      case sync_grads_shard bucket of
        None \<Rightarrow> Inl TypeError
      | Some out \<Rightarrow>
          (case grads_bucket bucket of
             None \<Rightarrow> Inl TypeError
           | Some xs \<Rightarrow>
               Inr (put_gbucket self k
                      (bucket\<lparr>sync_grads_shard :=
                         Some (map (reduce_scatter_tensor pg (reduce_op self) xs)
                                 [0..<length out])\<rparr>))))"

definition all_reduce_bucket ::
  "'a collectives \<Rightarrow> 'a DistributedFusedAdam \<Rightarrow> nat \<Rightarrow> error + 'a DistributedFusedAdam" where
  "all_reduce_bucket pg self k =
     (let bucket = gbucket self k in
      case sync_grads_shard bucket of
        None \<Rightarrow> Inl TypeError
      | Some xs \<Rightarrow>
          (let ys = map (all_reduce pg (reduce_op self) xs) [0..<length xs] in
           Inr (put_gbucket self k
                  (bucket\<lparr>sync_grads_shard := Some ys,
                          grads_bucket := (if distributed_size self = 1 then Some ys
                                           else grads_bucket bucket)\<rparr>))))"

definition start_bucket_grad_sync ::
  "'a collectives \<Rightarrow> 'a::{zero,plus} DistributedFusedAdam \<Rightarrow> nat list \<Rightarrow>
   error + 'a DistributedFusedAdam" where
  "start_bucket_grad_sync pg self ks =
     (case finish_bucket_grad_sync self of
        Inl e \<Rightarrow> Inl e
      | Inr self \<Rightarrow>
          (case fold_result (start_bucket pg) self ks of
             Inl e \<Rightarrow> Inl e
           | Inr self \<Rightarrow>
               (case (if 1 < distributed_size self
                      then fold_result (reduce_scatter_bucket pg) self ks else Inr self) of
                  Inl e \<Rightarrow> Inl e
                | Inr self \<Rightarrow>
                    (if 1 < redundant_size self
                     then fold_result (all_reduce_bucket pg) self ks else Inr self))))"

subsection \<open>Trying to start a synchronization\<close>

text \<open>
  \<^verbatim>\<open>_try_start_bucket_grad_sync\<close>, "Register params that have generated grads": the body
  for one fragment of the parameter \<open>p\<close>, and the loops over the fragments of the
  parameters. \<^verbatim>\<open>self.state[param]["fragments"]\<close> is a \<^verbatim>\<open>KeyError\<close> for a parameter
  without fragments.
\<close>

definition register_fragment ::
  "param \<Rightarrow> 'a::{zero,plus} DistributedFusedAdam \<Rightarrow> ParameterFragment \<Rightarrow>
   error + 'a DistributedFusedAdam" where
  "register_fragment p self fragment =
     (let k = bucket_id fragment;
          self = touch self k
      in case state_bucket self k of
           Inl e \<Rightarrow> Inl e
         | Inr sb \<Rightarrow>
             (let bucket = gbucket self k;
                  self = put_gbucket self k
                           (bucket\<lparr>grads_generated := insert p (grads_generated bucket)\<rparr>)
              in if card (grads_generated (gbucket self k)) = length (fragments sb) then
                   (let self = set_status self k FULLY_FILLED;
                        bucket = gbucket self k
                    in if grads_bucket bucket = None
                       then Inr (put_gbucket self k
                                   (bucket\<lparr>grads_bucket := Some (zeros (bucket_size sb))\<rparr>))
                       else Inr self)
                 else Inr self))"

definition register_param ::
  "'a::{zero,plus} DistributedFusedAdam \<Rightarrow> param \<Rightarrow> error + 'a DistributedFusedAdam" where
  "register_param self p =
     (case param_fragments self p of
        None \<Rightarrow> Inl KeyError
      | Some frags \<Rightarrow> fold_result (register_fragment p) self frags)"

definition register_params ::
  "'a::{zero,plus} DistributedFusedAdam \<Rightarrow> param list \<Rightarrow> error + 'a DistributedFusedAdam" where
  "register_params self params = fold_result register_param self params"

text \<open>
  "Launch reductions if enough buckets are ready". \<^verbatim>\<open>bucket_id == len(buckets) - 1\<close> on
  integers is \<open>Suc k = length (buckets self)\<close>.
\<close>

definition filled_buckets :: "'a DistributedFusedAdam \<Rightarrow> bool \<Rightarrow> nat list" where
  "filled_buckets self ignore_last_bucket =
     filter (\<lambda>k. \<not> (ignore_last_bucket \<and> Suc k = length (buckets self)) \<and>
                 status (gbucket self k) = FULLY_FILLED)
       (sorted_keys self)"

definition try_start_bucket_grad_sync ::
  "'a collectives \<Rightarrow> 'a::{zero,plus} DistributedFusedAdam \<Rightarrow> param list \<Rightarrow> bool \<Rightarrow>
   error + 'a DistributedFusedAdam" where
  "try_start_bucket_grad_sync pg self params ignore_last_bucket =
     (case register_params self params of
        Inl e \<Rightarrow> Inl e
      | Inr self \<Rightarrow>
          (if filled_buckets self ignore_last_bucket \<noteq> []
           then start_bucket_grad_sync pg self (filled_buckets self ignore_last_bucket)
           else Inr self))"

subsection \<open>Forcing the synchronization\<close>

text \<open>
  \<^verbatim>\<open>_force_bucket_grad_sync\<close>: the loop that gives a buffer to every bucket that is
  neither \<open>READY\<close> nor \<open>SYNCING\<close>, the keys of these buckets, the start and the finish, and
  the loop "Fill any unsynchronized gradients with zeros".
\<close>

definition force_prepare ::
  "'a::{zero,plus} DistributedFusedAdam \<Rightarrow> nat \<Rightarrow> error + 'a DistributedFusedAdam" where
  "force_prepare self k =
     (let bucket = gbucket self k in
      if status bucket \<noteq> READY \<and> status bucket \<noteq> SYNCING \<and> grads_bucket bucket = None then
        (case state_bucket self k of
           Inl e \<Rightarrow> Inl e
         | Inr sb \<Rightarrow>
             Inr (put_gbucket self k (bucket\<lparr>grads_bucket := Some (zeros (bucket_size sb))\<rparr>)))
      else Inr self)"

definition unsynchronized :: "'a DistributedFusedAdam \<Rightarrow> nat list" where
  "unsynchronized self =
     filter (\<lambda>k. status (gbucket self k) \<noteq> READY \<and> status (gbucket self k) \<noteq> SYNCING)
       (sorted_keys self)"

definition fill_shard ::
  "'a::{zero,plus} DistributedFusedAdam \<Rightarrow> nat \<Rightarrow> 'a DistributedFusedAdam" where
  "fill_shard self k =
     (let self = touch self k;
          bucket = gbucket self k
      in if grads_shard bucket = None
         then put_gbucket self k
                (bucket\<lparr>grads_shard := Some (zeros (shard_size (buckets self ! k)))\<rparr>)
         else self)"

definition force_bucket_grad_sync ::
  "'a collectives \<Rightarrow> 'a::{zero,plus} DistributedFusedAdam \<Rightarrow> error + 'a DistributedFusedAdam" where
  "force_bucket_grad_sync pg self =
     (case fold_result force_prepare self (sorted_keys self) of
        Inl e \<Rightarrow> Inl e
      | Inr self \<Rightarrow>
          (case (if unsynchronized self \<noteq> []
                 then start_bucket_grad_sync pg self (unsynchronized self) else Inr self) of
             Inl e \<Rightarrow> Inl e
           | Inr self \<Rightarrow>
               (case finish_bucket_grad_sync self of
                  Inl e \<Rightarrow> Inl e
                | Inr self \<Rightarrow> Inr (foldl fill_shard self [0..<length (buckets self)]))))"

subsection \<open>The callbacks\<close>

text \<open>
  \<^verbatim>\<open>post_backward_hook\<close> of the parameter \<open>p\<close> at position \<open>(gid, pid)\<close>, called when the
  gradient of \<open>p\<close> has been produced.
\<close>

definition post_backward_hook ::
  "'a collectives \<Rightarrow> 'a::{zero,plus} DistributedFusedAdam \<Rightarrow> param \<Rightarrow> nat \<Rightarrow> nat \<Rightarrow>
   (error + 'a DistributedFusedAdam) option" where
  "post_backward_hook pg self p gid pid =
     (if pre_forward_hook_is_enabled self p then
        Some (Inl (RuntimeError
          (''A parameter called its post-backward hook before its pre-forward hook. '' @
           ''Please manually interact with the parameter before the forward pass '' @
           ''(e.g. by calling data_ptr) or run DistributedFusedAdam with '' @
           ''overlap_param_sync=False.'')))
      else
        (let need_to_initialize = (param_fragments self p = None) in
         case (if need_to_initialize then init_param_state self p gid pid else Some self) of
           None \<Rightarrow> None
         | Some self \<Rightarrow>
             (if greedy_grad_copy self then
                (case grad_copy self p of
                   None \<Rightarrow> None
                 | Some (Inl e) \<Rightarrow> Some (Inl e)
                 | Some (Inr self) \<Rightarrow>
                     (if overlap_grad_sync self
                      then Some (try_start_bucket_grad_sync pg self [p] need_to_initialize)
                      else Some (Inr self)))
              else Some (Inr self))))"

text \<open>
  \<^verbatim>\<open>pre_forward_hook\<close> of the parameter \<open>p\<close>. For a parameter with fragments it copies the
  parameter out of its parameter bucket and tries to start the next parameter
  synchronization; the parameter engine is not part of this model and enters as the
  function \<open>param_engine\<close>.
\<close>

definition pre_forward_hook ::
  "('a DistributedFusedAdam \<Rightarrow> param \<Rightarrow> error + 'a DistributedFusedAdam) \<Rightarrow>
   'a DistributedFusedAdam \<Rightarrow> param \<Rightarrow> error + 'a DistributedFusedAdam" where
  "pre_forward_hook param_engine self p =
     (if param_fragments self p = None then Inr self else param_engine self p)"

text \<open>
  The patched \<^verbatim>\<open>__getattribute__\<close> of a parameter, for an attribute that is not special:
  an enabled hook is disabled and called.
\<close>

definition getattribute_with_pre_forward_hook ::
  "('a DistributedFusedAdam \<Rightarrow> param \<Rightarrow> error + 'a DistributedFusedAdam) \<Rightarrow>
   'a DistributedFusedAdam \<Rightarrow> param \<Rightarrow> error + 'a DistributedFusedAdam" where
  "getattribute_with_pre_forward_hook param_engine self p =
     (if pre_forward_hook_is_enabled self p
      then pre_forward_hook param_engine
             (self\<lparr>pre_forward_hook_is_enabled := (pre_forward_hook_is_enabled self)(p := False)\<rparr>) p
      else Inr self)"

subsection \<open>What the engine leaves alone\<close>

text \<open>
  \<open>same_but_grads s s'\<close>: the optimizer \<open>s'\<close> differs from \<open>s\<close> in the gradient buckets and
  in the history of their status only.
\<close>

definition same_but_grads :: "'a DistributedFusedAdam \<Rightarrow> 'a DistributedFusedAdam \<Rightarrow> bool" where
  "same_but_grads s s' \<longleftrightarrow>
     s' = s\<lparr>grads_buckets := grads_buckets s', status_log := status_log s'\<rparr>"

subsection \<open>What the engine does to one bucket\<close>

text \<open>
  The shard that \<^verbatim>\<open>_start_bucket_grad_sync\<close> leaves in \<^verbatim>\<open>sync_grads_shard\<close> for a bucket
  whose buffer is \<open>xs\<close>: the buffer itself with one distributed rank, the output of the
  reduce-scatter with more, and then the output of the all-reduce when there is more
  than one redundant rank. With a single rank in both groups no collective is called.
\<close>

definition communicated :: "'a collectives \<Rightarrow> 'a DistributedFusedAdam \<Rightarrow> 'a list \<Rightarrow> 'a list" where
  "communicated pg self xs =
     (let shard = (if distributed_size self = 1 then xs
                   else if 1 < distributed_size self
                   then map (reduce_scatter_tensor pg (reduce_op self) xs)
                          [0..<nat (int (length xs) div distributed_size self)]
                   else replicate (nat (int (length xs) div distributed_size self))
                          (empty_value pg))
      in if 1 < redundant_size self
         then map (all_reduce pg (reduce_op self) shard) [0..<length shard]
         else shard)"

text \<open>A bucket that \<^verbatim>\<open>_force_bucket_grad_sync\<close> does not start: \<open>READY\<close> or \<open>SYNCING\<close>.\<close>

definition settled :: "'a DistributedFusedAdam \<Rightarrow> nat \<Rightarrow> bool" where
  "settled s j \<longleftrightarrow> status (gbucket s j) = READY \<or> status (gbucket s j) = SYNCING"

text \<open>
  \<open>finished b b'\<close>: the bucket \<open>b'\<close> is what \<^verbatim>\<open>_finish_bucket_grad_sync\<close> makes of \<open>b\<close> when
  it returns.
\<close>

definition finished :: "'a::plus GradientBucket \<Rightarrow> 'a GradientBucket \<Rightarrow> bool" where
  "finished b b' \<longleftrightarrow>
     (if status b = SYNCING
      then status b' = READY \<and> grads_bucket b' = None \<and> sync_grads_shard b' = None \<and>
           grads_generated b' = grads_generated b \<and>
           (case grads_shard b of
              None \<Rightarrow> grads_shard b' = sync_grads_shard b
            | Some g \<Rightarrow> (\<exists>s g'. sync_grads_shard b = Some s \<and> tensor_add g s = Inr g' \<and>
                                grads_shard b' = Some g'))
      else b' = b)"

text \<open>
  The three loops of \<^verbatim>\<open>_start_bucket_grad_sync\<close> on a bucket that is not \<open>SYNCING\<close>, for
  the distributed size \<open>d\<close> and the reduction \<open>ro\<close>, and the bucket they leave together.
\<close>

definition begun :: "'a collectives \<Rightarrow> int \<Rightarrow> 'a GradientBucket \<Rightarrow> 'a GradientBucket" where
  "begun pg d b =
     b\<lparr>status := SYNCING, grads_generated := {},
       sync_grads_shard :=
         (if d = 1 then grads_bucket b
          else Some (replicate (nat (int (length (the (grads_bucket b))) div d))
                       (empty_value pg)))\<rparr>"

definition scattered :: "'a collectives \<Rightarrow> ReduceOp \<Rightarrow> 'a GradientBucket \<Rightarrow> 'a GradientBucket" where
  "scattered pg ro b =
     b\<lparr>sync_grads_shard :=
         Some (map (reduce_scatter_tensor pg ro (the (grads_bucket b)))
                 [0..<length (the (sync_grads_shard b))])\<rparr>"

definition reduced ::
  "'a collectives \<Rightarrow> ReduceOp \<Rightarrow> int \<Rightarrow> 'a GradientBucket \<Rightarrow> 'a GradientBucket" where
  "reduced pg ro d b =
     (let xs = the (sync_grads_shard b);
          ys = map (all_reduce pg ro xs) [0..<length xs]
      in b\<lparr>sync_grads_shard := Some ys,
           grads_bucket := (if d = 1 then Some ys else grads_bucket b)\<rparr>)"

definition launched ::
  "'a collectives \<Rightarrow> 'a DistributedFusedAdam \<Rightarrow> 'a GradientBucket \<Rightarrow> 'a GradientBucket" where
  "launched pg self b =
     b\<lparr>status := SYNCING, grads_generated := {},
       sync_grads_shard := map_option (communicated pg self) (grads_bucket b),
       grads_bucket := (if distributed_size self = 1 \<and> 1 < redundant_size self
                        then map_option (communicated pg self) (grads_bucket b)
                        else grads_bucket b)\<rparr>"

subsection \<open>Example states of the engine\<close>

text \<open>
  A process group of one rank, whose collectives leave a tensor as it is, and an
  optimizer with two parameters of 2 and 1 elements, buckets of 4 elements and the
  gradients \<open>[5, 7]\<close> and \<open>[3]\<close>.
\<close>

definition pg0 :: "int collectives" where
  "pg0 = \<lparr>reduce_scatter_tensor = (\<lambda>_ xs i. xs ! i), all_reduce = (\<lambda>_ xs i. xs ! i), empty_value = 0\<rparr>"

definition tiny :: "int DistributedFusedAdam" where
  "tiny =
     \<lparr>alignment = 2, default_shard_size = 4, distributed_size = 1, distributed_rank = 0,
      redundant_size = 1, average_grad_sync = True, greedy_grad_copy = True,
      overlap_grad_sync = True, overlap_param_sync = False,
      param_groups = [[0, 1]], buckets = [], param_fragments = Map.empty,
      grads_buckets = [], status_log = [], numel = (\<lambda>p. if p = 0 then 2 else 1),
      grad = [0 \<mapsto> [5, 7], 1 \<mapsto> [3]], pre_forward_hook_is_enabled = (\<lambda>_. False)\<rparr>"

text \<open>
  The same optimizer in overlap mode after a step: the pre-forward hook of every
  parameter is enabled, and no parameter has fragments.
\<close>

definition overlap_state :: "int DistributedFusedAdam" where
  "overlap_state = tiny\<lparr>overlap_param_sync := True, pre_forward_hook_is_enabled := (\<lambda>_. True)\<rparr>"

text \<open>
  The optimizer \<open>tiny\<close> with buckets of 2 elements, after the mapping of its parameters
  and the copy of the gradient of the first parameter: the first bucket is
  \<open>PARTIALLY_FILLED\<close>, the second has no gradient bucket yet.
\<close>

definition half_filled :: "int DistributedFusedAdam" where
  "half_filled =
     projr (the (grad_copy (projr (the (init_params (tiny\<lparr>default_shard_size := 2\<rparr>) None))) 0))"

section \<open>The loop of the fragment mapper\<close>



lemma round_up_zero: "0 < a \<Longrightarrow> round_to_multiple 0 a True = 0"
  by (simp add: round_to_multiple_def)

lemma split_param_rule:
  assumes A: "0 < align" and B: "0 < dshard * dsize"
    and exit: "\<And>bs b fs ps. \<not> ps < n \<Longrightarrow> Q bs b fs ps (bs, b, fs)"
    and new: "\<And>bs b fs ps r. ps < n \<Longrightarrow> \<not> has_room align b \<Longrightarrow>
        Q (bs @ [b]) (new_StateBucket (dshard * dsize) dshard
             (contiguous_buffer_offset b + bucket_size b)) fs ps r \<Longrightarrow> Q bs b fs ps r"
    and frag: "\<And>bs b fs ps r bstart fsz f. ps < n \<Longrightarrow> has_room align b \<Longrightarrow>
        bstart = round_to_multiple (filled_size b) align True \<Longrightarrow>
        fsz = min (n - ps) (bucket_size b - bstart) \<Longrightarrow>
        f = make_fragment rank gid pid (length bs) (shard_size b) ps (ps + fsz) bstart (bstart + fsz) \<Longrightarrow>
        Q bs (b\<lparr>fragments := fragments b @ [f], filled_size := bstart + fsz\<rparr>) (fs @ [f]) (ps + fsz) r \<Longrightarrow>
        Q bs b fs ps r"
  shows "\<exists>r. split_param align dshard dsize rank gid pid n bs b fs ps = Some r \<and> Q bs b fs ps r"
proof (induction "2 * nat (n - ps) + (if has_room align b then 0 else 1)"
         arbitrary: bs b fs ps rule: less_induct)
  case less
  show ?case
  proof (cases "ps < n")
    case False
    then show ?thesis
      by (subst split_param.simps) (simp add: exit)
  next
    case True
    show ?thesis
    proof (cases "has_room align b")
      case False
      let ?nb = "new_StateBucket (dshard * dsize) dshard (contiguous_buffer_offset b + bucket_size b)"
      have room: "has_room align ?nb"
        using A B by (simp add: has_room_def new_StateBucket_def round_up_zero)
      have "\<exists>r. split_param align dshard dsize rank gid pid n (bs @ [b]) ?nb fs ps = Some r
                 \<and> Q (bs @ [b]) ?nb fs ps r"
        using room False by (intro less) simp
      then obtain r where r: "split_param align dshard dsize rank gid pid n (bs @ [b]) ?nb fs ps = Some r"
        and q: "Q (bs @ [b]) ?nb fs ps r" by blast
      have "split_param align dshard dsize rank gid pid n bs b fs ps = Some r"
        using True False r
        by (subst split_param.simps) (auto simp: has_room_def Let_def)
      with new[OF True False q] show ?thesis by blast
    next
      case room: True
      define bstart where "bstart = round_to_multiple (filled_size b) align True"
      define fsz where "fsz = min (n - ps) (bucket_size b - bstart)"
      define f where "f = make_fragment rank gid pid (length bs) (shard_size b) ps (ps + fsz) bstart (bstart + fsz)"
      let ?b' = "b\<lparr>fragments := fragments b @ [f], filled_size := bstart + fsz\<rparr>"
      have pos: "0 < fsz"
        using True room by (simp add: fsz_def bstart_def has_room_def)
      have "\<exists>r. split_param align dshard dsize rank gid pid n bs ?b' (fs @ [f]) (ps + fsz) = Some r
                 \<and> Q bs ?b' (fs @ [f]) (ps + fsz) r"
        using pos True room by (intro less) (auto simp: fsz_def)
      then obtain r where r: "split_param align dshard dsize rank gid pid n bs ?b' (fs @ [f]) (ps + fsz) = Some r"
        and q: "Q bs ?b' (fs @ [f]) (ps + fsz) r" by blast
      have "split_param align dshard dsize rank gid pid n bs b fs ps = Some r"
        using True room pos r
        by (subst split_param.simps) (auto simp: has_room_def Let_def bstart_def fsz_def f_def)
      with frag[OF True room bstart_def fsz_def f_def q] show ?thesis by blast
    qed
  qed
qed



lemma make_fragment_sel [simp]:
  "param_group_id (make_fragment rank gid pid bid ssize ps pe bs be) = gid"
  "param_id (make_fragment rank gid pid bid ssize ps pe bs be) = pid"
  "bucket_id (make_fragment rank gid pid bid ssize ps pe bs be) = bid"
  "param_range (make_fragment rank gid pid bid ssize ps pe bs be) = (ps, pe)"
  "bucket_range (make_fragment rank gid pid bid ssize ps pe bs be) = (bs, be)"
  by (simp_all add: make_fragment_def Let_def)

lemma split_param_ranges:
  assumes A: "0 < align" and B: "0 < dshard * dsize"
  shows "\<exists>r. split_param align dshard dsize rank gid pid n bs b fs ps = Some r \<and>
           (ps \<le> n \<longrightarrow> (\<exists>new. snd (snd r) = fs @ new \<and> chain ps (map param_range new) n))"
proof (rule split_param_rule[OF A B], goal_cases)
  case (1 bs b fs ps)
  then show ?case by auto
next
  case (2 bs b fs ps r)
  then show ?case by auto
next
  case (3 bs b fs ps r bstart fsz f)
  show ?case
  proof
    assume le: "ps \<le> n"
    have pos: "0 < fsz" using 3(1,2,3,4) by (simp add: has_room_def)
    have "ps + fsz \<le> n" using 3(4) by simp
    with 3(6) obtain new where new: "snd (snd r) = (fs @ [f]) @ new"
      and ch: "chain (ps + fsz) (map param_range new) n" by blast
    have "snd (snd r) = fs @ (f # new)" using new by simp
    moreover have "chain ps (map param_range (f # new)) n"
      using ch pos 3(5) by simp
    ultimately show "\<exists>new. snd (snd r) = fs @ new \<and> chain ps (map param_range new) n"
      by blast
  qed
qed



lemma round_up_ge: "0 < a \<Longrightarrow> x \<le> round_to_multiple x a True"
proof -
  assume a: "0 < a"
  have "(x + a - 1) div a * a = (x + a - 1) - (x + a - 1) mod a"
    by (simp add: minus_mod_eq_div_mult)
  moreover have "(x + a - 1) mod a \<le> a - 1"
    using a pos_mod_bound[of a "x + a - 1"] by linarith
  ultimately show ?thesis by (simp add: round_to_multiple_def)
qed

lemma round_up_dvd: "a dvd round_to_multiple x a True"
  by (simp add: round_to_multiple_def)

lemma placed_append:
  "placed A a (rs @ [(s, e)]) final \<longleftrightarrow>
     (\<exists>m. placed A a rs m \<and> s = round_to_multiple m A True \<and> s < e \<and> final = e)"
  by (induction rs arbitrary: a) auto

lemma placed_mono: "0 < A \<Longrightarrow> placed A a rs final \<Longrightarrow> a \<le> final"
proof (induction rs arbitrary: a)
  case Nil
  then show ?case by simp
next
  case (Cons r rs)
  obtain s e where r: "r = (s, e)" by (cases r)
  from Cons.prems r have "s = round_to_multiple a A True" "s < e" "placed A e rs final"
    by simp_all
  moreover have "a \<le> round_to_multiple a A True" using Cons.prems(1) by (rule round_up_ge)
  moreover have "e \<le> final" using Cons.IH[OF Cons.prems(1)] calculation(3) by simp
  ultimately show ?case by linarith
qed

lemma split_param_sized:
  assumes A: "0 < align" and B: "0 < dshard * dsize"
  shows "\<exists>r. split_param align dshard dsize rank gid pid n bs b fs ps = Some r \<and>
           ((\<forall>x\<in>set bs. sized dshard dsize x) \<and> sized dshard dsize b \<longrightarrow>
            (\<forall>x\<in>set (fst r). sized dshard dsize x) \<and> sized dshard dsize (fst (snd r)))"
proof (rule split_param_rule[OF A B], goal_cases)
  case (1 bs b fs ps)
  then show ?case by simp
next
  case (2 bs b fs ps r)
  have nb: "sized dshard dsize (new_StateBucket (dshard * dsize) dshard
          (contiguous_buffer_offset b + bucket_size b))"
    by (simp add: sized_def new_StateBucket_def)
  show ?case
  proof (intro impI)
    assume pre: "(\<forall>x\<in>set bs. sized dshard dsize x) \<and> sized dshard dsize b"
    then have "\<forall>x\<in>set (bs @ [b]). sized dshard dsize x" by simp
    with 2(3) nb show "(\<forall>x\<in>set (fst r). sized dshard dsize x) \<and> sized dshard dsize (fst (snd r))"
      by blast
  qed
next
  case (3 bs b fs ps r bstart fsz f)
  show ?case
  proof (intro impI)
    assume pre: "(\<forall>x\<in>set bs. sized dshard dsize x) \<and> sized dshard dsize b"
    then have "sized dshard dsize (b\<lparr>fragments := fragments b @ [f], filled_size := bstart + fsz\<rparr>)"
      by (simp add: sized_def)
    with 3(6) pre show "(\<forall>x\<in>set (fst r). sized dshard dsize x) \<and> sized dshard dsize (fst (snd r))"
      by blast
  qed
qed


lemma ensure_bucket_split:
  "butlast (ensure_bucket self) @ [last (ensure_bucket self)] = ensure_bucket self"
  by (simp add: ensure_bucket_def)

lemma init_param_state_frame:
  assumes "init_param_state self p gid pid = Some self'"
  shows "alignment self' = alignment self \<and> default_shard_size self' = default_shard_size self \<and>
         distributed_size self' = distributed_size self \<and>
         distributed_rank self' = distributed_rank self \<and>
         param_groups self' = param_groups self \<and> numel self' = numel self \<and>
         grad self' = grad self \<and> grads_buckets self' = grads_buckets self \<and>
         pre_forward_hook_is_enabled self' = pre_forward_hook_is_enabled self \<and>
         greedy_grad_copy self' = greedy_grad_copy self \<and>
         overlap_grad_sync self' = overlap_grad_sync self \<and>
         overlap_param_sync self' = overlap_param_sync self \<and>
         redundant_size self' = redundant_size self \<and>
         average_grad_sync self' = average_grad_sync self"
  using assms
  by (auto simp: init_param_state_def split: option.splits prod.splits)

lemma ensure_bucket_sized:
  assumes "\<forall>b\<in>set (buckets self). sized (default_shard_size self) (distributed_size self) b"
  shows "\<forall>b\<in>set (ensure_bucket self). sized (default_shard_size self) (distributed_size self) b"
  using assms by (simp add: ensure_bucket_def sized_def new_StateBucket_def)

lemma init_param_state_sized:
  assumes A: "0 < alignment self" and B: "0 < default_shard_size self * distributed_size self"
    and S: "\<forall>b\<in>set (buckets self). sized (default_shard_size self) (distributed_size self) b"
  shows "\<exists>self'. init_param_state self p gid pid = Some self' \<and>
           (\<forall>b\<in>set (buckets self'). sized (default_shard_size self) (distributed_size self) b)"
proof (cases "param_fragments self p")
  case (Some fs)
  then show ?thesis using S by (simp add: init_param_state_def)
next
  case None
  let ?eb = "ensure_bucket self"
  have eb: "\<forall>b\<in>set (butlast ?eb @ [last ?eb]). sized (default_shard_size self) (distributed_size self) b"
    using ensure_bucket_sized[OF S] by (simp only: ensure_bucket_split)
  then have pre: "(\<forall>x\<in>set (butlast ?eb). sized (default_shard_size self) (distributed_size self) x) \<and>
             sized (default_shard_size self) (distributed_size self) (last ?eb)"
    by simp
  obtain r where r: "split_param (alignment self) (default_shard_size self)
        (distributed_size self) (distributed_rank self) gid pid (int (numel self p))
        (butlast ?eb) (last ?eb) [] 0 = Some r"
    and q: "(\<forall>x\<in>set (fst r). sized (default_shard_size self) (distributed_size self) x) \<and>
            sized (default_shard_size self) (distributed_size self) (fst (snd r))"
    using split_param_sized[OF A B, of "distributed_rank self" gid pid "int (numel self p)"
        "butlast ?eb" "last ?eb" "[]" 0] pre by blast
  obtain bs b frags where rr: "r = (bs, b, frags)" by (cases r)
  have "init_param_state self p gid pid =
          Some (self\<lparr>buckets := bs @ [b], param_fragments := (param_fragments self)(p \<mapsto> frags)\<rparr>)"
    using None r rr by (simp add: init_param_state_def)
  moreover have "\<forall>x\<in>set (bs @ [b]). sized (default_shard_size self) (distributed_size self) x"
    using q rr by simp
  ultimately show ?thesis by simp
qed

lemma init_params_loop_sized:
  assumes A: "0 < alignment self" and B: "0 < default_shard_size self * distributed_size self"
    and S: "\<forall>b\<in>set (buckets self). sized (default_shard_size self) (distributed_size self) b"
  shows "\<exists>self'. init_params_loop self ps = Some self' \<and>
           (\<forall>b\<in>set (buckets self'). sized (default_shard_size self) (distributed_size self) b)"
  using assms
proof (induction ps arbitrary: self)
  case Nil
  then show ?case by simp
next
  case (Cons p ps)
  show ?case
  proof (cases "id_map (param_groups self) p")
    case None
    then show ?thesis using Cons.IH[OF Cons.prems] by simp
  next
    case (Some ids)
    obtain gid pid where ids: "ids = (gid, pid)" by (cases ids)
    obtain s1 where s1: "init_param_state self p gid pid = Some s1"
      and z1: "\<forall>b\<in>set (buckets s1). sized (default_shard_size self) (distributed_size self) b"
      using init_param_state_sized[OF Cons.prems] by blast
    note fr = init_param_state_frame[OF s1]
    have "\<exists>self'. init_params_loop s1 ps = Some self' \<and>
           (\<forall>b\<in>set (buckets self'). sized (default_shard_size s1) (distributed_size s1) b)"
      using Cons.prems z1 fr by (intro Cons.IH) simp_all
    then show ?thesis using Some ids s1 fr by simp
  qed
qed

lemma init_alignment_cases: "init_alignment d = 32 \<or> init_alignment d = 64"
  by (cases d) (simp_all add: init_alignment_def dtype_size_def)

lemma init_alignment_pos: "0 < init_alignment d"
  using init_alignment_cases[of d] by auto

lemma round_down_dvd: "a dvd round_to_multiple x a False"
  by (simp add: round_to_multiple_def)

lemma round_down_fix: "a dvd x \<Longrightarrow> round_to_multiple x a False = x"
  by (auto simp: round_to_multiple_def)

lemma init_default_shard_size_ge: "init_alignment d \<le> init_default_shard_size d raw"
  by (simp add: init_default_shard_size_def Let_def)

lemma init_default_shard_size_dvd: "init_alignment d dvd init_default_shard_size d raw"
  by (simp add: init_default_shard_size_def Let_def max_def round_down_dvd)

lemma split_param_single:
  assumes A: "0 < align" and n: "0 < n" and le: "n \<le> bsz"
  shows "split_param align dshard dsize rank gid pid n [] (new_StateBucket bsz ssz 0) [] 0 =
           Some ([],
                 (new_StateBucket bsz ssz 0)
                   \<lparr>fragments := [make_fragment rank gid pid 0 ssz 0 n 0 n], filled_size := n\<rparr>,
                 [make_fragment rank gid pid 0 ssz 0 n 0 n])"
proof -
  have r0: "round_to_multiple 0 align True = 0" using A by (rule round_up_zero)
  have m: "min n bsz = n" using le by simp
  have nle: "\<not> n \<le> 0" using n by simp
  show ?thesis
    apply (subst split_param.simps)
    apply (simp add: new_StateBucket_def r0 m n nle Let_def)
    apply (subst split_param.simps)
    apply (simp add: n)
    done
qed

lemma frag_rank0:
  assumes "10 < ssz"
  shows "make_fragment 0 gid pid 0 ssz 0 10 0 10 =
     \<lparr>param_group_id = gid, param_id = pid, bucket_id = 0,
      param_range = (0, 10), bucket_range = (0, 10), in_local_shard = True,
      shard_range = Some (0, 10), shard_bucket_range = Some (0, 10),
      shard_param_range = Some (0, 10)\<rparr>"
  using assms by (simp add: make_fragment_def Let_def)

lemma frag_rank1:
  assumes "10 < ssz"
  shows "make_fragment 1 gid pid 0 ssz 0 10 0 10 =
     \<lparr>param_group_id = gid, param_id = pid, bucket_id = 0,
      param_range = (0, 10), bucket_range = (0, 10), in_local_shard = False,
      shard_range = None, shard_bucket_range = None,
      shard_param_range = None\<rparr>"
  using assms by (simp add: make_fragment_def Let_def)

lemmas eval_defs = init_def init_alignment_def dtype_size_def init_default_shard_size_def
  round_to_multiple_def init_params_def parameters_def id_map_def enumerate_params_def
  init_param_state_def ensure_bucket_def new_StateBucket_def make_fragment_def Let_def
  check_utilization_def

lemma init_default_shard_size_ge32: "32 \<le> init_default_shard_size gsd raw"
  using init_default_shard_size_ge[of gsd raw] init_alignment_cases[of gsd] by linarith

lemma placed_in_snoc_old:
  assumes "placed_in (bs @ [b]) g"
  shows "placed_in ((bs @ [b]) @ [nb]) g"
proof -
  from assms have l: "bucket_id g < length (bs @ [b])"
    and m: "g \<in> set (fragments ((bs @ [b]) ! bucket_id g))"
    by (simp_all add: placed_in_def)
  have "((bs @ [b]) @ [nb]) ! bucket_id g = (bs @ [b]) ! bucket_id g"
    using l by (simp only: nth_append if_True)
  then show ?thesis using l m by (simp add: placed_in_def)
qed

lemma placed_in_grow:
  assumes "placed_in (bs @ [b]) g"
  shows "placed_in (bs @ [b\<lparr>fragments := fragments b @ [f], filled_size := x\<rparr>]) g"
proof (cases "bucket_id g < length bs")
  case True
  then show ?thesis using assms by (simp add: placed_in_def nth_append)
next
  case False
  then have "bucket_id g = length bs" using assms by (simp add: placed_in_def)
  then show ?thesis using assms by (simp add: placed_in_def nth_append)
qed

lemma split_param_placed:
  assumes A: "0 < align" and B: "0 < dshard * dsize"
  shows "\<exists>r. split_param align dshard dsize rank gid pid n bs b fs ps = Some r \<and>
           ((\<forall>g. placed_in (bs @ [b]) g \<longrightarrow> placed_in (fst r @ [fst (snd r)]) g) \<and>
            (\<forall>g\<in>set (snd (snd r)). g \<in> set fs \<or> placed_in (fst r @ [fst (snd r)]) g))"
proof (rule split_param_rule[OF A B], goal_cases)
  case (1 bs b fs ps)
  then show ?case by simp
next
  case (2 bs b fs ps r)
  let ?nb = "new_StateBucket (dshard * dsize) dshard (contiguous_buffer_offset b + bucket_size b)"
  from 2(3) have ih1: "\<And>g. placed_in ((bs @ [b]) @ [?nb]) g \<Longrightarrow> placed_in (fst r @ [fst (snd r)]) g"
    and ih2: "\<forall>g\<in>set (snd (snd r)). g \<in> set fs \<or> placed_in (fst r @ [fst (snd r)]) g"
    by blast+
  have "placed_in (fst r @ [fst (snd r)]) g" if "placed_in (bs @ [b]) g" for g
    using ih1[OF placed_in_snoc_old[OF that]] .
  with ih2 show ?case by blast
next
  case (3 bs b fs ps r bstart fsz f)
  let ?b' = "b\<lparr>fragments := fragments b @ [f], filled_size := bstart + fsz\<rparr>"
  from 3(6) have ih1: "\<And>g. placed_in (bs @ [?b']) g \<Longrightarrow> placed_in (fst r @ [fst (snd r)]) g"
    and ih2: "\<forall>g\<in>set (snd (snd r)). g \<in> set (fs @ [f]) \<or> placed_in (fst r @ [fst (snd r)]) g"
    by blast+
  have new: "placed_in (bs @ [?b']) f" using 3(5) by (simp add: placed_in_def)
  have a: "placed_in (fst r @ [fst (snd r)]) g" if "placed_in (bs @ [b]) g" for g
    using ih1[OF placed_in_grow[OF that]] .
  have b: "g \<in> set fs \<or> placed_in (fst r @ [fst (snd r)]) g" if "g \<in> set (snd (snd r))" for g
  proof -
    from ih2 that have "g \<in> set (fs @ [f]) \<or> placed_in (fst r @ [fst (snd r)]) g" by blast
    then consider "g \<in> set fs" | "g = f" | "placed_in (fst r @ [fst (snd r)]) g" by auto
    then show ?thesis using ih1[OF new] by cases simp_all
  qed
  from a b show ?case by blast
qed

lemma chain_bounds:
  "chain a rs b \<Longrightarrow> a \<le> b \<and> (\<forall>r\<in>set rs. a \<le> fst r \<and> fst r < snd r \<and> snd r \<le> b)"
proof (induction rs arbitrary: a)
  case Nil
  then show ?case by simp
next
  case (Cons r rs)
  obtain s e where r: "r = (s, e)" by (cases r)
  from Cons.prems r have h: "s = a" "s < e" "chain e rs b" by simp_all
  from Cons.IH[OF h(3)] have "e \<le> b" and "\<forall>x\<in>set rs. e \<le> fst x \<and> fst x < snd x \<and> snd x \<le> b"
    by simp_all
  then show ?case using h r by fastforce
qed

lemma chain_union: "chain a rs b \<Longrightarrow> (\<Union>r\<in>set rs. {fst r..<snd r}) = {a..<b}"
proof (induction rs arbitrary: a)
  case Nil
  then show ?case by simp
next
  case (Cons r rs)
  obtain s e where r: "r = (s, e)" by (cases r)
  from Cons.prems r have h: "s = a" "s < e" "chain e rs b" by simp_all
  have eb: "e \<le> b" using chain_bounds[OF h(3)] by simp
  have "(\<Union>r\<in>set (r # rs). {fst r..<snd r}) = {a..<e} \<union> {e..<b}"
    using Cons.IH[OF h(3)] r h(1) by simp
  also have "\<dots> = {a..<b}" using h(1,2) eb by auto
  finally show ?case .
qed

lemma chain_ordered:
  "chain a rs b \<Longrightarrow> i < j \<Longrightarrow> j < length rs \<Longrightarrow> snd (rs ! i) \<le> fst (rs ! j)"
proof (induction rs arbitrary: a i j)
  case Nil
  then show ?case by simp
next
  case (Cons r rs)
  obtain s e where r: "r = (s, e)" by (cases r)
  from Cons.prems(1) r have h: "s = a" "s < e" "chain e rs b" by simp_all
  obtain j' where j: "j = Suc j'" using Cons.prems(2) by (cases j) simp_all
  have j'len: "j' < length rs" using Cons.prems(3) j by simp
  show ?case
  proof (cases i)
    case 0
    have "rs ! j' \<in> set rs" using j'len by simp
    then have "e \<le> fst (rs ! j')" using chain_bounds[OF h(3)] by blast
    then show ?thesis using 0 j r by simp
  next
    case (Suc i')
    then have "i' < j'" using Cons.prems(2) j by simp
    from Cons.IH[OF h(3) this j'len] show ?thesis using Suc j by simp
  qed
qed

lemma chain_disjoint:
  assumes "chain a rs b" "i < length rs" "j < length rs" "i \<noteq> j"
  shows "{fst (rs ! i)..<snd (rs ! i)} \<inter> {fst (rs ! j)..<snd (rs ! j)} = {}"
proof -
  consider "i < j" | "j < i" using assms(4) by linarith
  then show ?thesis
  proof cases
    case 1
    from chain_ordered[OF assms(1) 1 assms(3)] show ?thesis by auto
  next
    case 2
    from chain_ordered[OF assms(1) 2 assms(2)] show ?thesis by auto
  qed
qed

lemma init_param_state_unfold:
  assumes A: "0 < alignment self" and B: "0 < default_shard_size self * distributed_size self"
    and N: "param_fragments self p = None"
  obtains bs b frags where
    "split_param (alignment self) (default_shard_size self) (distributed_size self)
       (distributed_rank self) gid pid (int (numel self p))
       (butlast (ensure_bucket self)) (last (ensure_bucket self)) [] 0 = Some (bs, b, frags)"
    "init_param_state self p gid pid =
       Some (self\<lparr>buckets := bs @ [b], param_fragments := (param_fragments self)(p \<mapsto> frags)\<rparr>)"
proof -
  obtain r where r: "split_param (alignment self) (default_shard_size self) (distributed_size self)
       (distributed_rank self) gid pid (int (numel self p))
       (butlast (ensure_bucket self)) (last (ensure_bucket self)) [] 0 = Some r"
    using split_param_ranges[OF A B] by blast
  obtain bs b frags where rr: "r = (bs, b, frags)" by (cases r)
  have "init_param_state self p gid pid =
       Some (self\<lparr>buckets := bs @ [b], param_fragments := (param_fragments self)(p \<mapsto> frags)\<rparr>)"
    using N r rr by (simp add: init_param_state_def)
  with r rr that show ?thesis by blast
qed

lemma init_param_state_partition:
  assumes A: "0 < alignment self" and B: "0 < default_shard_size self * distributed_size self"
    and N: "param_fragments self p = None"
  shows "\<exists>self' fs. init_param_state self p gid pid = Some self' \<and>
           param_fragments self' p = Some fs \<and>
           chain 0 (map param_range fs) (int (numel self p)) \<and>
           (\<forall>f\<in>set fs. placed_in (buckets self') f)"
proof -
  let ?eb = "ensure_bucket self"
  obtain bs b frags where sp: "split_param (alignment self) (default_shard_size self)
       (distributed_size self) (distributed_rank self) gid pid (int (numel self p))
       (butlast ?eb) (last ?eb) [] 0 = Some (bs, b, frags)"
    and ip: "init_param_state self p gid pid =
       Some (self\<lparr>buckets := bs @ [b], param_fragments := (param_fragments self)(p \<mapsto> frags)\<rparr>)"
    using init_param_state_unfold[OF A B N] by blast
  from split_param_ranges[OF A B, of "distributed_rank self" gid pid "int (numel self p)"
        "butlast ?eb" "last ?eb" "[]" 0] sp
  have ch: "chain 0 (map param_range frags) (int (numel self p))" by auto
  from split_param_placed[OF A B, of "distributed_rank self" gid pid "int (numel self p)"
        "butlast ?eb" "last ?eb" "[]" 0] sp
  have pl: "\<forall>g\<in>set frags. placed_in (bs @ [b]) g" by auto
  show ?thesis using ip ch pl by simp
qed

lemma init_params_single:
  fixes g :: "param \<rightharpoonup> 'a list"
  assumes D: "D = init_default_shard_size gsd raw"
    and s: "s = init gsd raw 2 r red avg og ov [[p]] (\<lambda>_. 10) g"
  shows "init_params s None =
     Some (Inr (s\<lparr>buckets := [(new_StateBucket (D * 2) D 0)
                \<lparr>fragments := [make_fragment r 0 0 0 D 0 10 0 10], filled_size := 10\<rparr>],
              param_fragments := [p \<mapsto> [make_fragment r 0 0 0 D 0 10 0 10]]\<rparr>))"
proof -
  have D32: "32 \<le> D" using D init_default_shard_size_ge32 by simp
  have sp: "split_param (init_alignment gsd) D 2 r 0 0 10 [] (new_StateBucket (D * 2) D 0) [] 0 =
           Some ([],
                 (new_StateBucket (D * 2) D 0)
                   \<lparr>fragments := [make_fragment r 0 0 0 D 0 10 0 10], filled_size := 10\<rparr>,
                 [make_fragment r 0 0 0 D 0 10 0 10])"
    using D32 by (intro split_param_single init_alignment_pos) simp_all
  have f: "alignment s = init_alignment gsd" "default_shard_size s = D" "distributed_size s = 2"
    "distributed_rank s = r" "buckets s = []" "param_fragments s = Map.empty"
    "param_groups s = [[p]]" "numel s = (\<lambda>_. 10)"
    using D s by (simp_all add: init_def)
  have eb: "ensure_bucket s = [new_StateBucket (D * 2) D 0]"
    by (simp add: ensure_bucket_def f)
  let ?s' = "s\<lparr>buckets := [(new_StateBucket (D * 2) D 0)
                \<lparr>fragments := [make_fragment r 0 0 0 D 0 10 0 10], filled_size := 10\<rparr>],
              param_fragments := [p \<mapsto> [make_fragment r 0 0 0 D 0 10 0 10]]\<rparr>"
  have ips: "init_param_state s p 0 0 = Some ?s'"
    by (simp add: init_param_state_def f eb sp)
  have idm: "id_map [[p]] p = Some (0, 0)"
    by (simp add: id_map_def enumerate_params_def)
  have cu: "check_utilization ?s' = Inr ?s'"
    using D32 by (simp add: check_utilization_def parameters_def Let_def f(7) new_StateBucket_def)
  show ?thesis
    by (simp add: init_params_def parameters_def Let_def f(6,7) idm ips cu)
qed

lemma init_param_state_nonempty:
  assumes A: "0 < alignment self" and B: "0 < default_shard_size self * distributed_size self"
    and I: "(\<exists>q. param_fragments self q \<noteq> None) \<longrightarrow> buckets self \<noteq> []"
  shows "\<exists>self'. init_param_state self p gid pid = Some self' \<and>
           ((\<exists>q. param_fragments self' q \<noteq> None) \<longrightarrow> buckets self' \<noteq> [])"
proof (cases "param_fragments self p")
  case (Some fs)
  then show ?thesis using I by (simp add: init_param_state_def)
next
  case None
  obtain bs b frags where
    ip: "init_param_state self p gid pid =
       Some (self\<lparr>buckets := bs @ [b], param_fragments := (param_fragments self)(p \<mapsto> frags)\<rparr>)"
    using init_param_state_unfold[OF A B None] by blast
  then show ?thesis by simp
qed

lemma init_params_loop_inv:
  assumes A: "0 < alignment self" and B: "0 < default_shard_size self * distributed_size self"
    and S: "\<forall>b\<in>set (buckets self). sized (default_shard_size self) (distributed_size self) b"
    and I: "(\<exists>q. param_fragments self q \<noteq> None) \<longrightarrow> buckets self \<noteq> []"
  shows "\<exists>self'. init_params_loop self ps = Some self' \<and>
           (\<forall>b\<in>set (buckets self'). sized (default_shard_size self) (distributed_size self) b) \<and>
           ((\<exists>q. param_fragments self' q \<noteq> None) \<longrightarrow> buckets self' \<noteq> []) \<and>
           param_groups self' = param_groups self"
  using assms
proof (induction ps arbitrary: self)
  case Nil
  then show ?case by simp
next
  case (Cons p ps)
  show ?case
  proof (cases "id_map (param_groups self) p")
    case None
    then show ?thesis using Cons.IH[OF Cons.prems] by simp
  next
    case (Some ids)
    obtain gid pid where ids: "ids = (gid, pid)" by (cases ids)
    obtain s1 where s1: "init_param_state self p gid pid = Some s1"
      and z1: "\<forall>b\<in>set (buckets s1). sized (default_shard_size self) (distributed_size self) b"
      using init_param_state_sized[OF Cons.prems(1,2,3)] by blast
    have n1: "(\<exists>q. param_fragments s1 q \<noteq> None) \<longrightarrow> buckets s1 \<noteq> []"
      using init_param_state_nonempty[OF Cons.prems(1,2,4), of p gid pid] s1 by simp
    note fr = init_param_state_frame[OF s1]
    have "\<exists>self'. init_params_loop s1 ps = Some self' \<and>
           (\<forall>b\<in>set (buckets self'). sized (default_shard_size s1) (distributed_size s1) b) \<and>
           ((\<exists>q. param_fragments self' q \<noteq> None) \<longrightarrow> buckets self' \<noteq> []) \<and>
           param_groups self' = param_groups s1"
      using Cons.prems(1,2) z1 n1 fr by (intro Cons.IH) simp_all
    then show ?thesis using Some ids s1 fr by simp
  qed
qed

lemma check_utilization_cases:
  assumes S: "\<forall>b\<in>set (buckets s). sized D Z b" and pos: "0 < D * Z"
    and I: "(\<exists>q. param_fragments s q \<noteq> None) \<longrightarrow> buckets s \<noteq> []"
  shows "check_utilization s = Inr s \<or>
         (check_utilization s = Inl ZeroDivisionError \<and> concat (param_groups s) = [])"
proof (cases "buckets s = []")
  case True
  then have none: "\<forall>q. param_fragments s q = None" using I by blast
  show ?thesis
  proof (cases "parameters s = []")
    case True
    then show ?thesis using \<open>buckets s = []\<close>
      by (simp add: check_utilization_def Let_def parameters_def)
  next
    case False
    have "filter (\<lambda>p. param_fragments s p \<noteq> None) (parameters s) = []"
      using none by simp
    then show ?thesis using False by (simp add: check_utilization_def Let_def)
  qed
next
  case False
  have nonneg: "\<forall>x\<in>set (map bucket_size (buckets s)). 0 < x"
    using S pos by (auto simp: sized_def)
  obtain b bs where bb: "buckets s = b # bs" using False by (cases "buckets s") auto
  have "0 \<le> sum_list (map bucket_size bs)"
    using nonneg bb by (intro sum_list_nonneg) auto
  moreover have "0 < bucket_size b" using nonneg bb by simp
  ultimately have "sum_list (map bucket_size (buckets s)) \<noteq> 0" using bb by simp
  then show ?thesis by (simp add: check_utilization_def Let_def)
qed

lemma placed_concat:
  "placed A a r1 m \<Longrightarrow> placed A m r2 z \<Longrightarrow> placed A a (r1 @ r2) z"
  by (induction r1 arbitrary: a) auto

lemma extends_refl: "extends A b b"
  unfolding extends_def by (rule exI[of _ "[]"]) simp

lemma extends_trans:
  assumes "extends A b b1" and "extends A b1 b2"
  shows "extends A b b2"
proof -
  from assms(1) obtain a1 where
    e1: "b1 = b\<lparr>fragments := fragments b @ a1, filled_size := filled_size b1\<rparr>"
    and p1: "placed A (filled_size b) (map bucket_range a1) (filled_size b1)"
    and s1: "\<forall>f\<in>set a1. snd (bucket_range f) \<le> bucket_size b"
    and f1: "a1 \<noteq> [] \<longrightarrow> able_to_fill b"
    unfolding extends_def by blast
  from assms(2) obtain a2 where
    e2: "b2 = b1\<lparr>fragments := fragments b1 @ a2, filled_size := filled_size b2\<rparr>"
    and p2: "placed A (filled_size b1) (map bucket_range a2) (filled_size b2)"
    and s2: "\<forall>f\<in>set a2. snd (bucket_range f) \<le> bucket_size b1"
    and f2: "a2 \<noteq> [] \<longrightarrow> able_to_fill b1"
    unfolding extends_def by blast
  have fr1: "fragments b1 = fragments b @ a1" by (subst e1) simp
  have bs1: "bucket_size b1 = bucket_size b" by (subst e1) simp
  have af1: "able_to_fill b1 = able_to_fill b" by (subst e1) simp
  have e: "b2 = b\<lparr>fragments := fragments b @ (a1 @ a2), filled_size := filled_size b2\<rparr>"
    by (subst e2, subst e1) (simp add: fr1)
  have p: "placed A (filled_size b) (map bucket_range (a1 @ a2)) (filled_size b2)"
    using placed_concat[OF p1 p2] by simp
  have s: "\<forall>f\<in>set (a1 @ a2). snd (bucket_range f) \<le> bucket_size b"
    using s1 s2 bs1 by auto
  have f: "a1 @ a2 \<noteq> [] \<longrightarrow> able_to_fill b"
    using f1 f2 af1 by auto
  show ?thesis unfolding extends_def
    by (rule exI[of _ "a1 @ a2"]) (rule conjI[OF e conjI[OF p conjI[OF s f]]])
qed

lemma extends_step:
  assumes room: "has_room A b"
    and bstart: "bstart = round_to_multiple (filled_size b) A True"
    and pos: "0 < fsz" and le: "bstart + fsz \<le> bucket_size b"
    and f: "bucket_range f = (bstart, bstart + fsz)"
  shows "extends A b (b\<lparr>fragments := fragments b @ [f], filled_size := bstart + fsz\<rparr>)"
  unfolding extends_def
  apply (rule exI[of _ "[f]"])
  using assms by (simp add: has_room_def)

lemma mapped_exit: "mapped A dshard dsize (length bs) b (bs @ [b])"
  by (auto simp: mapped_def extends_refl)

lemma mapped_frag:
  assumes "mapped A dshard dsize n b2 R" and "extends A b b2"
  shows "mapped A dshard dsize n b R"
  using assms extends_trans[OF assms(2)] unfolding mapped_def by blast

lemma mapped_new:
  assumes m: "mapped A dshard dsize (Suc n) nb R"
    and nb: "nb = new_StateBucket (dshard * dsize) dshard
                    (contiguous_buffer_offset b + bucket_size b)"
    and rn: "R ! n = b" and nr: "\<not> has_room A b"
  shows "mapped A dshard dsize n b R"
proof -
  from m have len: "Suc n < length R" and e: "extends A nb (R ! Suc n)"
    and later: "\<forall>i. Suc n < i \<and> i < length R \<longrightarrow>
        extends A (new_StateBucket (dshard * dsize) dshard
                     (contiguous_buffer_offset (R ! (i - 1)) + bucket_size (R ! (i - 1))))
          (R ! i)"
    and closed: "\<forall>i. Suc n \<le> i \<and> Suc i < length R \<longrightarrow> \<not> has_room A (R ! i)"
    unfolding mapped_def by blast+
  have 1: "n < length R" using len by simp
  have 2: "extends A b (R ! n)" using rn extends_refl by simp
  have 3: "extends A (new_StateBucket (dshard * dsize) dshard
                     (contiguous_buffer_offset (R ! (i - 1)) + bucket_size (R ! (i - 1))))
          (R ! i)" if "n < i \<and> i < length R" for i
  proof (cases "i = Suc n")
    case True
    then show ?thesis using e nb rn by simp
  next
    case False
    then have "Suc n < i \<and> i < length R" using that by simp
    with later show ?thesis by blast
  qed
  have 4: "\<not> has_room A (R ! i)" if "n \<le> i \<and> Suc i < length R" for i
  proof (cases "i = n")
    case True
    then show ?thesis using rn nr by simp
  next
    case False
    then have "Suc n \<le> i \<and> Suc i < length R" using that by simp
    with closed show ?thesis by blast
  qed
  show ?thesis unfolding mapped_def using 1 2 3 4 by blast
qed

lemma split_param_mapped:
  assumes A: "0 < align" and B: "0 < dshard * dsize"
  shows "\<exists>r. split_param align dshard dsize rank gid pid n bs b fs ps = Some r \<and>
           (take (length bs) (fst r @ [fst (snd r)]) = bs \<and>
            mapped align dshard dsize (length bs) b (fst r @ [fst (snd r)]))"
proof (rule split_param_rule[OF A B], goal_cases)
  case (1 bs b fs ps)
  show ?case using mapped_exit[of align dshard dsize bs b] by simp
next
  case (2 bs b fs ps r)
  define R where "R = fst r @ [fst (snd r)]"
  let ?nb = "new_StateBucket (dshard * dsize) dshard (contiguous_buffer_offset b + bucket_size b)"
  from 2(3) have t: "take (length (bs @ [b])) R = bs @ [b]"
    and m: "mapped align dshard dsize (length (bs @ [b])) ?nb R"
    unfolding R_def by blast+
  have tk: "take (length bs) R = bs"
  proof -
    have "take (length bs) R = take (length bs) (take (length (bs @ [b])) R)"
      by (simp add: min_def)
    also have "\<dots> = take (length bs) (bs @ [b])" by (simp only: t)
    also have "\<dots> = bs" by simp
    finally show ?thesis .
  qed
  have len: "length bs < length R" using m unfolding mapped_def by simp
  have rn: "R ! length bs = b"
  proof -
    have "R ! length bs = (take (length (bs @ [b])) R) ! length bs" by simp
    also have "\<dots> = (bs @ [b]) ! length bs" by (simp only: t)
    finally show ?thesis by simp
  qed
  have m': "mapped align dshard dsize (Suc (length bs)) ?nb R" using m by simp
  from mapped_new[OF m' refl rn 2(2)] tk show ?case unfolding R_def by blast
next
  case (3 bs b fs ps r bstart fsz f)
  let ?R = "fst r @ [fst (snd r)]"
  let ?b2 = "b\<lparr>fragments := fragments b @ [f], filled_size := bstart + fsz\<rparr>"
  from 3(6) have t: "take (length bs) ?R = bs"
    and m: "mapped align dshard dsize (length bs) ?b2 ?R" by blast+
  have pos: "0 < fsz" using 3(1,2,3,4) by (simp add: has_room_def)
  have le: "bstart + fsz \<le> bucket_size b" using 3(4) by simp
  have fr: "bucket_range f = (bstart, bstart + fsz)" using 3(5) by simp
  have e: "extends align b ?b2" by (rule extends_step[OF 3(2) 3(3) pos le fr])
  from mapped_frag[OF m e] t show ?case by blast
qed

lemmas bucket_eval_defs = init_params_bucket_def pad_bucket_def pad_param_def pad_fragment_def

lemma ex_padded_run:
  "init_params_bucket ex_padded [0, 1] = Some (Inr ex_padded_state)"
  unfolding ex_padded_state_def
  by (simp add: ex_padded_def eval_defs bucket_eval_defs split_param.simps)

lemma ex_padded_buckets:
  "map (\<lambda>b. (able_to_fill b, bucket_size b, filled_size b,
                  map (\<lambda>f. (param_id f, bucket_range f)) (fragments b)))
         (buckets ex_padded_state) =
   [(False, 64, 64, [(0, (0, 10)), (1, (32, 64))]),
    (False, 64, 38, [(1, (0, 38)), (0, (64, 64))])]"
  unfolding ex_padded_state_def
  by (simp add: ex_padded_def eval_defs bucket_eval_defs split_param.simps)

lemma ex_padded_fields:
  "alignment ex_padded_state = 32" "default_shard_size ex_padded_state = 64"
  "distributed_size ex_padded_state = 1" "param_fragments ex_padded_state 2 = None"
  "length (ensure_bucket ex_padded_state) = 2"
  unfolding ex_padded_state_def
  by (simp_all add: ex_padded_def eval_defs bucket_eval_defs split_param.simps)

lemma ex_padded_next:
  "map (\<lambda>b. (able_to_fill b, bucket_size b, filled_size b,
                  map (\<lambda>f. (param_id f, bucket_range f)) (fragments b)))
         (buckets (the (init_param_state ex_padded_state 2 0 2))) =
   [(False, 64, 64, [(0, (0, 10)), (1, (32, 64))]),
    (False, 64, 38, [(1, (0, 38)), (0, (64, 64))]),
    (True, 64, 5, [(2, (0, 5))])]"
  unfolding ex_padded_state_def
  by (simp add: ex_padded_def eval_defs bucket_eval_defs split_param.simps)

section \<open>Frame of the engine\<close>

lemma same_but_grads_refl [simp]: "same_but_grads s s"
  by (simp add: same_but_grads_def)

lemma same_but_grads_trans:
  "same_but_grads s s' \<Longrightarrow> same_but_grads s' s'' \<Longrightarrow> same_but_grads s s''"
  unfolding same_but_grads_def
  by (metis (no_types, lifting) DistributedFusedAdam.surjective DistributedFusedAdam.update_convs(13)
      DistributedFusedAdam.update_convs(14))

lemma same_but_grads_fields:
  assumes "same_but_grads s s'"
  shows "grad s' = grad s" "buckets s' = buckets s" "param_fragments s' = param_fragments s"
    "param_groups s' = param_groups s" "numel s' = numel s"
    "distributed_size s' = distributed_size s" "redundant_size s' = redundant_size s"
    "alignment s' = alignment s" "default_shard_size s' = default_shard_size s"
    "distributed_rank s' = distributed_rank s" "average_grad_sync s' = average_grad_sync s"
    "greedy_grad_copy s' = greedy_grad_copy s" "overlap_grad_sync s' = overlap_grad_sync s"
    "overlap_param_sync s' = overlap_param_sync s"
    "pre_forward_hook_is_enabled s' = pre_forward_hook_is_enabled s"
proof -
  from assms have e: "s' = s\<lparr>grads_buckets := grads_buckets s', status_log := status_log s'\<rparr>"
    by (simp add: same_but_grads_def)
  show "grad s' = grad s" by (subst e) simp
  show "buckets s' = buckets s" by (subst e) simp
  show "param_fragments s' = param_fragments s" by (subst e) simp
  show "param_groups s' = param_groups s" by (subst e) simp
  show "numel s' = numel s" by (subst e) simp
  show "distributed_size s' = distributed_size s" by (subst e) simp
  show "redundant_size s' = redundant_size s" by (subst e) simp
  show "alignment s' = alignment s" by (subst e) simp
  show "default_shard_size s' = default_shard_size s" by (subst e) simp
  show "distributed_rank s' = distributed_rank s" by (subst e) simp
  show "average_grad_sync s' = average_grad_sync s" by (subst e) simp
  show "greedy_grad_copy s' = greedy_grad_copy s" by (subst e) simp
  show "overlap_grad_sync s' = overlap_grad_sync s" by (subst e) simp
  show "overlap_param_sync s' = overlap_param_sync s" by (subst e) simp
  show "pre_forward_hook_is_enabled s' = pre_forward_hook_is_enabled s" by (subst e) simp
qed

lemma put_gbucket_same [simp]: "same_but_grads s (put_gbucket s k b)"
  by (simp add: same_but_grads_def put_gbucket_def)

lemma touch_same [simp]: "same_but_grads s (touch s k)"
  by (simp add: touch_def)

lemma set_status_same [simp]: "same_but_grads s (set_status s k st)"
  by (simp add: same_but_grads_def set_status_def put_gbucket_def)

lemma fold_result_same:
  assumes step: "\<And>s x s'. f s x = Inr s' \<Longrightarrow> same_but_grads s s'"
  shows "fold_result f s xs = Inr s' \<Longrightarrow> same_but_grads s s'"
proof (induction xs arbitrary: s)
  case Nil
  then show ?case by simp
next
  case (Cons x xs)
  from Cons.prems obtain s1 where a: "f s x = Inr s1" and b: "fold_result f s1 xs = Inr s'"
    by (auto split: sum.splits)
  from step[OF a] Cons.IH[OF b] show ?case by (rule same_but_grads_trans)
qed

lemma finish_bucket_same: "finish_bucket s k = Inr s' \<Longrightarrow> same_but_grads s s'"
  by (auto simp: finish_bucket_def Let_def split: if_splits sum.splits option.splits
      intro: same_but_grads_trans[OF put_gbucket_same set_status_same])

lemma finish_same: "finish_bucket_grad_sync s = Inr s' \<Longrightarrow> same_but_grads s s'"
  unfolding finish_bucket_grad_sync_def
  by (rule fold_result_same[OF finish_bucket_same])

lemma grad_copy_fragment_same:
  assumes "grad_copy_fragment p s f = Inr s'"
  shows "same_but_grads s s'"
proof -
  let ?k = "bucket_id f"
  let ?s0 = "touch s ?k"
  from assms obtain sb s1 where sb: "state_bucket ?s0 ?k = Inr sb"
    and s1: "(if status (gbucket ?s0 ?k) = SYNCING then finish_bucket_grad_sync ?s0 else Inr ?s0) = Inr s1"
    by (auto simp: grad_copy_fragment_def Let_def split: sum.splits)
  have a: "same_but_grads s ?s0" by simp
  have b: "same_but_grads ?s0 s1" using s1 finish_same by (auto split: if_splits)
  let ?s2 = "set_status s1 ?k PARTIALLY_FILLED"
  have c: "same_but_grads s1 ?s2" by simp
  have "\<exists>b'. s' = put_gbucket ?s2 ?k b'"
    using assms sb s1
    by (auto simp: grad_copy_fragment_def Let_def split: sum.splits option.splits)
  then obtain b' where "s' = put_gbucket ?s2 ?k b'" by blast
  then have d: "same_but_grads ?s2 s'" by simp
  show ?thesis
    using a b c d by (blast intro: same_but_grads_trans)
qed

lemma grad_copy_clears_grad:
  assumes "grad_copy self p = Some (Inr self')"
  shows "grad self' p = None"
proof -
  from assms obtain s1 frags s2 where
    "fold_result (grad_copy_fragment p) s1 frags = Inr s2"
    and e: "self' = s2\<lparr>grad := (grad s2)(p := None)\<rparr>"
    by (auto simp: grad_copy_def split: option.splits sum.splits if_splits)
  show ?thesis by (simp add: e)
qed

lemma register_fragment_same:
  assumes "register_fragment p s f = Inr s'"
  shows "same_but_grads s s'"
proof -
  let ?k = "bucket_id f"
  let ?s0 = "touch s ?k"
  let ?s1 = "put_gbucket ?s0 ?k ((gbucket ?s0 ?k)\<lparr>grads_generated := insert p (grads_generated (gbucket ?s0 ?k))\<rparr>)"
  let ?s2 = "set_status ?s1 ?k FULLY_FILLED"
  have a: "same_but_grads s ?s1"
    by (rule same_but_grads_trans[OF touch_same put_gbucket_same])
  have b: "same_but_grads s ?s2"
    by (rule same_but_grads_trans[OF a set_status_same])
  from assms have "s' = ?s1 \<or> s' = ?s2 \<or> (\<exists>b'. s' = put_gbucket ?s2 ?k b')"
    by (auto simp: register_fragment_def Let_def split: sum.splits if_splits)
  then show ?thesis
    using a b same_but_grads_trans[OF b put_gbucket_same] by blast
qed

lemma register_param_same: "register_param s p = Inr s' \<Longrightarrow> same_but_grads s s'"
  unfolding register_param_def
  by (auto split: option.splits intro: fold_result_same[of "register_fragment p", OF register_fragment_same])

lemma register_params_same: "register_params s ps = Inr s' \<Longrightarrow> same_but_grads s s'"
  unfolding register_params_def
  by (rule fold_result_same[OF register_param_same])

lemma start_bucket_same:
  assumes "start_bucket pg s k = Inr s'"
  shows "same_but_grads s s'"
proof -
  from assms obtain s1 where
    s1: "(if status (gbucket s k) = SYNCING then finish_bucket_grad_sync s else Inr s) = Inr s1"
    by (auto simp: start_bucket_def split: sum.splits)
  have a: "same_but_grads s s1" using s1 finish_same by (auto split: if_splits)
  let ?s2 = "set_status s1 k SYNCING"
  have "\<exists>b'. s' = put_gbucket ?s2 k b'"
    using assms s1
    by (auto simp: start_bucket_def Let_def split: sum.splits option.splits if_splits)
  then obtain b' where "s' = put_gbucket ?s2 k b'" by blast
  then have "same_but_grads ?s2 s'" by simp
  with a show ?thesis
    by (blast intro: same_but_grads_trans set_status_same)
qed

lemma start_buckets_same:
  "fold_result (start_bucket pg) s ks = Inr s' \<Longrightarrow> same_but_grads s s'"
  using start_bucket_same fold_result_same by metis

lemma reduce_scatter_bucket_same:
  "reduce_scatter_bucket pg s k = Inr s' \<Longrightarrow> same_but_grads s s'"
  by (auto simp: reduce_scatter_bucket_def Let_def split: option.splits)

lemma all_reduce_bucket_same:
  "all_reduce_bucket pg s k = Inr s' \<Longrightarrow> same_but_grads s s'"
  by (auto simp: all_reduce_bucket_def Let_def split: option.splits)

lemma start_bucket_grad_sync_same:
  assumes "start_bucket_grad_sync pg s ks = Inr s'"
  shows "same_but_grads s s'"
proof -
  from assms obtain s1 s2 s3 where
    a: "finish_bucket_grad_sync s = Inr s1"
    and b: "fold_result (start_bucket pg) s1 ks = Inr s2"
    and c: "(if 1 < distributed_size s2 then fold_result (reduce_scatter_bucket pg) s2 ks else Inr s2) = Inr s3"
    and d: "(if 1 < redundant_size s3 then fold_result (all_reduce_bucket pg) s3 ks else Inr s3) = Inr s'"
    by (auto simp: start_bucket_grad_sync_def split: sum.splits)
  have 1: "same_but_grads s s1" using a by (rule finish_same)
  have 2: "same_but_grads s1 s2" using b by (rule start_buckets_same)
  have 3: "same_but_grads s2 s3"
    using c fold_result_same[of "reduce_scatter_bucket pg", OF reduce_scatter_bucket_same] by (auto split: if_splits)
  have 4: "same_but_grads s3 s'"
    using d fold_result_same[of "all_reduce_bucket pg", OF all_reduce_bucket_same] by (auto split: if_splits)
  show ?thesis using 1 2 3 4 by (blast intro: same_but_grads_trans)
qed

lemma try_start_same:
  assumes "try_start_bucket_grad_sync pg s ps ig = Inr s'"
  shows "same_but_grads s s'"
proof -
  from assms obtain s1 where a: "register_params s ps = Inr s1"
    and b: "(if filled_buckets s1 ig \<noteq> [] then start_bucket_grad_sync pg s1 (filled_buckets s1 ig)
             else Inr s1) = Inr s'"
    by (auto simp: try_start_bucket_grad_sync_def split: sum.splits)
  have 1: "same_but_grads s s1" using a by (rule register_params_same)
  have 2: "same_but_grads s1 s'"
    using b start_bucket_grad_sync_same by (auto split: if_splits)
  show ?thesis using 1 2 by (rule same_but_grads_trans)
qed

lemmas engine_defs = post_backward_hook_def grad_copy_def grad_copy_fragment_def
  try_start_bucket_grad_sync_def register_params_def register_param_def register_fragment_def
  filled_buckets_def start_bucket_grad_sync_def start_bucket_def finish_bucket_grad_sync_def
  finish_bucket_def force_bucket_grad_sync_def force_prepare_def unsynchronized_def fill_shard_def
  sorted_keys_def gbucket_def put_gbucket_def touch_def set_status_def state_bucket_def
  new_GradientBucket_def zeros_def py_slice_def tensor_add_def add_slice_def reduce_op_def
  reduce_scatter_bucket_def all_reduce_bucket_def

section \<open>The buckets through a forced synchronization\<close>

lemma gbucket_put [simp]:
  "gbucket (put_gbucket s k b) j = (if j = k then b else gbucket s j)"
  by (simp add: gbucket_def put_gbucket_def update_conv')

lemma gbucket_touch [simp]: "gbucket (touch s k) j = gbucket s j"
  by (simp add: touch_def)

lemma gbucket_set_status [simp]:
  "gbucket (set_status s k st) j = (if j = k then (gbucket s k)\<lparr>status := st\<rparr> else gbucket s j)"
  by (simp add: set_status_def gbucket_def put_gbucket_def update_conv')

lemma keys_put [simp]:
  "fst ` set (grads_buckets (put_gbucket s k b)) = insert k (fst ` set (grads_buckets s))"
  by (simp add: put_gbucket_def dom_update)

lemma keys_touch [simp]:
  "fst ` set (grads_buckets (touch s k)) = insert k (fst ` set (grads_buckets s))"
  by (simp add: touch_def)

lemma keys_set_status [simp]:
  "fst ` set (grads_buckets (set_status s k st)) = insert k (fst ` set (grads_buckets s))"
  by (simp add: set_status_def put_gbucket_def dom_update)

lemma buckets_put [simp]: "buckets (put_gbucket s k b) = buckets s"
  by (simp add: put_gbucket_def)

lemma buckets_touch [simp]: "buckets (touch s k) = buckets s"
  by (simp add: touch_def)

lemma buckets_set_status [simp]: "buckets (set_status s k st) = buckets s"
  by (simp add: set_status_def put_gbucket_def)

lemma gbucket_absent:
  "k \<notin> fst ` set (grads_buckets s) \<Longrightarrow> gbucket s k = new_GradientBucket"
proof -
  assume "k \<notin> fst ` set (grads_buckets s)"
  then have "map_of (grads_buckets s) k = None" by (simp add: map_of_eq_None_iff)
  then show ?thesis by (simp add: gbucket_def)
qed

lemma set_sorted_keys [simp]: "set (sorted_keys s) = fst ` set (grads_buckets s)"
  by (simp add: sorted_keys_def)

lemma finish_bucket_effect:
  assumes "finish_bucket s k = Inr s'"
  shows "finished (gbucket s k) (gbucket s' k)"
    and "j \<noteq> k \<Longrightarrow> gbucket s' j = gbucket s j"
  using assms
  by (auto simp: finish_bucket_def finished_def Let_def split: if_splits sum.splits option.splits)

lemma finished_status:
  "finished b b' \<Longrightarrow> status b' = (if status b = SYNCING then READY else status b)"
  by (auto simp: finished_def split: if_splits)

lemma finished_not_syncing: "finished b b' \<Longrightarrow> status b \<noteq> SYNCING \<Longrightarrow> b' = b"
  by (auto simp: finished_def split: if_splits)

lemma finished_refl: "status b \<noteq> SYNCING \<Longrightarrow> finished b b"
  by (simp add: finished_def)

lemma finish_fold_finished:
  assumes "fold_result finish_bucket s ks = Inr s'"
  shows "if j \<in> set ks then finished (gbucket s j) (gbucket s' j)
         else gbucket s' j = gbucket s j"
  using assms
proof (induction ks arbitrary: s)
  case Nil
  then show ?case by simp
next
  case (Cons k ks)
  from Cons.prems obtain s1 where a: "finish_bucket s k = Inr s1"
    and b: "fold_result finish_bucket s1 ks = Inr s'"
    by (auto split: sum.splits)
  note ih = Cons.IH[OF b]
  note f = finish_bucket_effect(1)[OF a]
  note e2 = finish_bucket_effect(2)[OF a]
  show ?case
  proof (cases "j = k")
    case True
    have st1: "status (gbucket s1 j) \<noteq> SYNCING"
      using finished_status[OF f] True by auto
    have same: "gbucket s' j = gbucket s1 j"
    proof (cases "j \<in> set ks")
      case True
      with ih have "finished (gbucket s1 j) (gbucket s' j)" by simp
      from finished_not_syncing[OF this st1] show ?thesis .
    next
      case False
      with ih show ?thesis by simp
    qed
    show ?thesis using same f True by simp
  next
    case False
    with ih e2[of j] show ?thesis by auto
  qed
qed

lemma finish_fold_effect:
  assumes "fold_result finish_bucket s ks = Inr s'"
  shows "(j \<in> set ks \<longrightarrow> status (gbucket s' j) = (if status (gbucket s j) = SYNCING then READY
                                                    else status (gbucket s j))) \<and>
         (j \<notin> set ks \<or> status (gbucket s j) \<noteq> SYNCING \<longrightarrow> gbucket s' j = gbucket s j)"
  using finish_fold_finished[OF assms, of j] finished_status finished_not_syncing
  by (auto split: if_splits)

lemma finish_effect:
  assumes "finish_bucket_grad_sync s = Inr s'"
  shows "finished (gbucket s j) (gbucket s' j)"
proof (cases "j \<in> fst ` set (grads_buckets s)")
  case True
  then show ?thesis
    using finish_fold_finished[OF assms[unfolded finish_bucket_grad_sync_def], of j] by simp
next
  case False
  then have "gbucket s' j = gbucket s j"
    using finish_fold_finished[OF assms[unfolded finish_bucket_grad_sync_def], of j] by simp
  moreover have "status (gbucket s j) = READY"
    using gbucket_absent[OF False] by (simp add: new_GradientBucket_def)
  ultimately show ?thesis by (simp add: finished_def)
qed

lemma finish_status:
  assumes "finish_bucket_grad_sync s = Inr s'"
  shows "status (gbucket s' j) = (if status (gbucket s j) = SYNCING then READY
                                  else status (gbucket s j))"
proof (cases "j \<in> fst ` set (grads_buckets s)")
  case True
  then show ?thesis
    using finish_fold_effect[OF assms[unfolded finish_bucket_grad_sync_def], of j] by simp
next
  case False
  then have "gbucket s' j = gbucket s j"
    using finish_fold_effect[OF assms[unfolded finish_bucket_grad_sync_def], of j] by simp
  moreover have "status (gbucket s j) = READY"
    using gbucket_absent[OF False] by (simp add: new_GradientBucket_def)
  ultimately show ?thesis by simp
qed

lemma finish_unchanged:
  assumes "finish_bucket_grad_sync s = Inr s'" and "status (gbucket s j) \<noteq> SYNCING"
  shows "gbucket s' j = gbucket s j"
  using finish_fold_effect[OF assms(1)[unfolded finish_bucket_grad_sync_def], of j] assms(2)
  by blast

lemma finish_buckets:
  assumes "finish_bucket_grad_sync s = Inr s'"
  shows "buckets s' = buckets s"
  using same_but_grads_fields(2)[OF finish_same[OF assms]] .

lemma fold_result_invariant:
  assumes step: "\<And>s x s'. x \<in> set xs \<Longrightarrow> f s x = Inr s' \<Longrightarrow> P s \<Longrightarrow> P s'"
    and init: "P s"
    and run: "fold_result f s xs = Inr s'"
  shows "P s'"
  using step init run
proof (induction xs arbitrary: s)
  case Nil
  then show ?case by simp
next
  case (Cons x xs)
  from Cons.prems(3) obtain s1 where a: "f s x = Inr s1" and b: "fold_result f s1 xs = Inr s'"
    by (auto split: sum.splits)
  have p1: "P s1" using Cons.prems(1)[of x s s1] a Cons.prems(2) by simp
  show ?case
    by (rule Cons.IH[OF _ p1 b]) (use Cons.prems(1) in auto)
qed

lemma fields_put [simp]:
  "distributed_size (put_gbucket s k b) = distributed_size s"
  "redundant_size (put_gbucket s k b) = redundant_size s"
  "average_grad_sync (put_gbucket s k b) = average_grad_sync s"
  "grad (put_gbucket s k b) = grad s"
  "param_fragments (put_gbucket s k b) = param_fragments s"
  "param_groups (put_gbucket s k b) = param_groups s"
  "status_log (put_gbucket s k b) = status_log s"
  by (simp_all add: put_gbucket_def)

lemma fields_touch [simp]:
  "distributed_size (touch s k) = distributed_size s"
  "redundant_size (touch s k) = redundant_size s"
  "average_grad_sync (touch s k) = average_grad_sync s"
  "grad (touch s k) = grad s"
  "param_fragments (touch s k) = param_fragments s"
  "param_groups (touch s k) = param_groups s"
  "status_log (touch s k) = status_log s"
  by (simp_all add: touch_def)

lemma fields_set_status [simp]:
  "distributed_size (set_status s k st) = distributed_size s"
  "redundant_size (set_status s k st) = redundant_size s"
  "average_grad_sync (set_status s k st) = average_grad_sync s"
  "grad (set_status s k st) = grad s"
  "param_fragments (set_status s k st) = param_fragments s"
  "param_groups (set_status s k st) = param_groups s"
  "status_log (set_status s k st) = status_log s @ [(k, status (gbucket s k), st)]"
  by (simp_all add: set_status_def put_gbucket_def)

lemma finish_settled:
  assumes "finish_bucket_grad_sync s = Inr s'" and "settled s j"
  shows "settled s' j"
  using finish_status[OF assms(1), of j] assms(2) by (auto simp: settled_def)

lemma start_bucket_effect:
  assumes "start_bucket pg s k = Inr s'"
  obtains s1 where
    "(if status (gbucket s k) = SYNCING then finish_bucket_grad_sync s else Inr s) = Inr s1"
    "status (gbucket s' k) = SYNCING"
    "grads_shard (gbucket s' k) = grads_shard (gbucket s1 k)"
    "\<And>j. j \<noteq> k \<Longrightarrow> gbucket s' j = gbucket s1 j"
    "distributed_size s = 1 \<Longrightarrow> sync_grads_shard (gbucket s' k) = grads_bucket (gbucket s1 k)"
    "grads_bucket (gbucket s' k) = grads_bucket (gbucket s1 k)"
proof -
  from assms obtain s1 where
    s1: "(if status (gbucket s k) = SYNCING then finish_bucket_grad_sync s else Inr s) = Inr s1"
    by (auto simp: start_bucket_def split: sum.splits)
  have ds: "distributed_size s1 = distributed_size s"
    using s1 same_but_grads_fields(6)[OF finish_same] by (auto split: if_splits)
  from assms s1 have
    "status (gbucket s' k) = SYNCING \<and>
     grads_shard (gbucket s' k) = grads_shard (gbucket s1 k) \<and>
     (\<forall>j. j \<noteq> k \<longrightarrow> gbucket s' j = gbucket s1 j) \<and>
     (distributed_size s = 1 \<longrightarrow> sync_grads_shard (gbucket s' k) = grads_bucket (gbucket s1 k)) \<and>
     grads_bucket (gbucket s' k) = grads_bucket (gbucket s1 k)"
    using ds
    by (auto simp: start_bucket_def Let_def split: sum.splits option.splits if_splits)
  with s1 that show ?thesis by blast
qed

lemma start_bucket_settled:
  assumes "start_bucket pg s k = Inr s'" and "j = k \<or> settled s j"
  shows "settled s' j"
proof -
  obtain s1 where
    s1: "(if status (gbucket s k) = SYNCING then finish_bucket_grad_sync s else Inr s) = Inr s1"
    and k: "status (gbucket s' k) = SYNCING"
    and o: "\<And>j. j \<noteq> k \<Longrightarrow> gbucket s' j = gbucket s1 j"
    using start_bucket_effect[OF assms(1)] by metis
  show ?thesis
  proof (cases "j = k")
    case True
    then show ?thesis using k by (simp add: settled_def)
  next
    case False
    then have sj: "settled s j" using assms(2) by simp
    have "settled s1 j"
      using s1 sj finish_settled by (auto split: if_splits)
    then show ?thesis using o[OF False] by (simp add: settled_def)
  qed
qed

lemma start_fold_settled:
  assumes "fold_result (start_bucket pg) s ks = Inr s'"
    and "\<forall>j. j \<notin> set ks \<longrightarrow> settled s j"
  shows "settled s' j"
  using assms
proof (induction ks arbitrary: s)
  case Nil
  then show ?case by simp
next
  case (Cons k ks)
  from Cons.prems(1) obtain s1 where a: "start_bucket pg s k = Inr s1"
    and b: "fold_result (start_bucket pg) s1 ks = Inr s'"
    by (auto split: sum.splits)
  have "\<forall>j. j \<notin> set ks \<longrightarrow> settled s1 j"
  proof (intro allI impI)
    fix i assume "i \<notin> set ks"
    then have "i = k \<or> settled s i" using Cons.prems(2) by auto
    then show "settled s1 i" by (rule start_bucket_settled[OF a])
  qed
  from Cons.IH[OF b this] show ?case .
qed

lemma reduce_scatter_bucket_status:
  "reduce_scatter_bucket pg s k = Inr s' \<Longrightarrow>
   status (gbucket s' j) = status (gbucket s j) \<and> grads_shard (gbucket s' j) = grads_shard (gbucket s j) \<and>
   (j \<noteq> k \<longrightarrow> gbucket s' j = gbucket s j)"
  by (auto simp: reduce_scatter_bucket_def Let_def split: option.splits)

lemma all_reduce_bucket_status:
  "all_reduce_bucket pg s k = Inr s' \<Longrightarrow>
   status (gbucket s' j) = status (gbucket s j) \<and> grads_shard (gbucket s' j) = grads_shard (gbucket s j) \<and>
   (j \<noteq> k \<longrightarrow> gbucket s' j = gbucket s j)"
  by (auto simp: all_reduce_bucket_def Let_def split: option.splits)

lemma reduce_scatter_fold_settled:
  assumes "fold_result (reduce_scatter_bucket pg) s ks = Inr s'"
  shows "status (gbucket s' j) = status (gbucket s j) \<and>
         (j \<notin> set ks \<longrightarrow> gbucket s' j = gbucket s j)"
  using assms
proof (induction ks arbitrary: s)
  case Nil
  then show ?case by simp
next
  case (Cons k ks)
  from Cons.prems obtain s1 where a: "reduce_scatter_bucket pg s k = Inr s1"
    and b: "fold_result (reduce_scatter_bucket pg) s1 ks = Inr s'"
    by (auto split: sum.splits)
  from reduce_scatter_bucket_status[OF a, of j] Cons.IH[OF b] show ?case by auto
qed

lemma all_reduce_fold_settled:
  assumes "fold_result (all_reduce_bucket pg) s ks = Inr s'"
  shows "status (gbucket s' j) = status (gbucket s j) \<and>
         (j \<notin> set ks \<longrightarrow> gbucket s' j = gbucket s j)"
  using assms
proof (induction ks arbitrary: s)
  case Nil
  then show ?case by simp
next
  case (Cons k ks)
  from Cons.prems obtain s1 where a: "all_reduce_bucket pg s k = Inr s1"
    and b: "fold_result (all_reduce_bucket pg) s1 ks = Inr s'"
    by (auto split: sum.splits)
  from all_reduce_bucket_status[OF a, of j] Cons.IH[OF b] show ?case by auto
qed

lemma start_sync_settled:
  assumes run: "start_bucket_grad_sync pg s ks = Inr s'"
    and pre: "\<forall>j. j \<notin> set ks \<longrightarrow> settled s j"
  shows "settled s' j"
proof -
  from run obtain s1 s2 s3 where
    a: "finish_bucket_grad_sync s = Inr s1"
    and b: "fold_result (start_bucket pg) s1 ks = Inr s2"
    and c: "(if 1 < distributed_size s2 then fold_result (reduce_scatter_bucket pg) s2 ks else Inr s2) = Inr s3"
    and d: "(if 1 < redundant_size s3 then fold_result (all_reduce_bucket pg) s3 ks else Inr s3) = Inr s'"
    by (auto simp: start_bucket_grad_sync_def split: sum.splits)
  have "\<forall>j. j \<notin> set ks \<longrightarrow> settled s1 j"
    using pre finish_settled[OF a] by blast
  from start_fold_settled[OF b this] have 2: "settled s2 j" .
  have 3: "status (gbucket s3 j) = status (gbucket s2 j)"
    using c reduce_scatter_fold_settled[of pg s2 ks s3 j] by (auto split: if_splits)
  have 4: "status (gbucket s' j) = status (gbucket s3 j)"
    using d all_reduce_fold_settled[of pg s3 ks s' j] by (auto split: if_splits)
  show ?thesis using 2 3 4 by (simp add: settled_def)
qed

lemma fold_pointwise:
  assumes step: "\<And>s k s'. I s \<Longrightarrow> c (gbucket s k) \<Longrightarrow> f s k = Inr s' \<Longrightarrow>
                   I s' \<and> (\<forall>j. gbucket s' j = (if j = k then u (gbucket s k) else gbucket s j))"
    and inv: "I s"
    and pre: "\<forall>k \<in> set ks. c (gbucket s k)"
    and run: "fold_result f s ks = Inr s'"
    and dist: "distinct ks"
  shows "I s' \<and> (\<forall>j. gbucket s' j = (if j \<in> set ks then u (gbucket s j) else gbucket s j))"
  using inv pre run dist
proof (induction ks arbitrary: s)
  case Nil
  then show ?case by simp
next
  case (Cons k ks)
  from Cons.prems(3) obtain s1 where a: "f s k = Inr s1" and b: "fold_result f s1 ks = Inr s'"
    by (auto split: sum.splits)
  have ck: "c (gbucket s k)" using Cons.prems(2) by simp
  from step[OF Cons.prems(1) ck a] have i1: "I s1"
    and g1: "\<And>j. gbucket s1 j = (if j = k then u (gbucket s k) else gbucket s j)"
    by auto
  have kn: "k \<notin> set ks" and d: "distinct ks" using Cons.prems(4) by auto
  have pre1: "\<forall>j \<in> set ks. c (gbucket s1 j)"
  proof
    fix j assume j: "j \<in> set ks"
    then have "j \<noteq> k" using kn by auto
    then show "c (gbucket s1 j)" using g1[of j] Cons.prems(2) j by simp
  qed
  from Cons.IH[OF i1 pre1 b d] have i': "I s'"
    and g': "\<And>j. gbucket s' j = (if j \<in> set ks then u (gbucket s1 j) else gbucket s1 j)"
    by auto
  have "gbucket s' j = (if j \<in> set (k # ks) then u (gbucket s j) else gbucket s j)" for j
    using g'[of j] g1[of j] kn by auto
  then show ?case using i' by blast
qed

lemma force_prepare_effect:
  assumes "force_prepare s k = Inr s'"
  shows "gbucket s' j =
           (if j = k \<and> \<not> settled s k \<and> grads_bucket (gbucket s k) = None
            then (gbucket s k)\<lparr>grads_bucket := Some (zeros (bucket_size (buckets s ! k)))\<rparr>
            else gbucket s j)"
    and "buckets s' = buckets s"
  using assms
  by (auto simp: force_prepare_def settled_def state_bucket_def Let_def
           split: if_splits sum.splits)

lemma force_prepare_fold:
  assumes "fold_result force_prepare s ks = Inr s'"
  shows "buckets s' = buckets s \<and>
         gbucket s' j =
           (if j \<in> set ks \<and> \<not> settled s j \<and> grads_bucket (gbucket s j) = None
            then (gbucket s j)\<lparr>grads_bucket := Some (zeros (bucket_size (buckets s ! j)))\<rparr>
            else gbucket s j)"
  using assms
proof (induction ks arbitrary: s)
  case Nil
  then show ?case by simp
next
  case (Cons k ks)
  from Cons.prems obtain s1 where a: "force_prepare s k = Inr s1"
    and b: "fold_result force_prepare s1 ks = Inr s'"
    by (auto split: sum.splits)
  note e = force_prepare_effect[OF a]
  note ih = Cons.IH[OF b]
  have st: "settled s1 i = settled s i" for i
    using e(1)[of i] by (simp add: settled_def)
  show ?case
  proof (cases "j = k")
    case True
    show ?thesis
    proof (cases "\<not> settled s k \<and> grads_bucket (gbucket s k) = None")
      case True
      then have "gbucket s1 k =
        (gbucket s k)\<lparr>grads_bucket := Some (zeros (bucket_size (buckets s ! k)))\<rparr>"
        using e(1)[of k] by simp
      moreover from this have "grads_bucket (gbucket s1 k) \<noteq> None" by simp
      then have "gbucket s' k = gbucket s1 k" using ih \<open>j = k\<close> by simp
      ultimately show ?thesis using \<open>j = k\<close> True ih e(2) by simp
    next
      case False
      then have "gbucket s1 k = gbucket s k" using e(1)[of k] by auto
      then show ?thesis using \<open>j = k\<close> False ih e(2) st[of k] by auto
    qed
  next
    case False
    then have "gbucket s1 j = gbucket s j" using e(1)[of j] by simp
    then show ?thesis using False ih e(2) st[of j] by auto
  qed
qed

lemma unsynchronized_iff: "j \<in> set (unsynchronized s) \<longleftrightarrow> \<not> settled s j"
proof (cases "j \<in> fst ` set (grads_buckets s)")
  case True
  then show ?thesis by (auto simp: unsynchronized_def settled_def)
next
  case False
  then have "status (gbucket s j) = READY"
    using gbucket_absent[OF False] by (simp add: new_GradientBucket_def)
  then show ?thesis using False by (auto simp: unsynchronized_def settled_def)
qed

lemma distinct_sorted_keys: "distinct (sorted_keys s)"
  by (simp add: sorted_keys_def)

lemma distinct_unsynchronized: "distinct (unsynchronized s)"
  by (simp add: unsynchronized_def distinct_sorted_keys)

lemma fold_pointwise_q:
  assumes step: "\<And>s k s'. I s \<Longrightarrow> c (gbucket s k) \<Longrightarrow> f s k = Inr s' \<Longrightarrow>
                   I s' \<and> q (gbucket s k) \<and>
                   (\<forall>j. gbucket s' j = (if j = k then u (gbucket s k) else gbucket s j))"
    and inv: "I s"
    and pre: "\<forall>k \<in> set ks. c (gbucket s k)"
    and run: "fold_result f s ks = Inr s'"
    and dist: "distinct ks"
  shows "I s' \<and> (\<forall>k \<in> set ks. q (gbucket s k)) \<and>
         (\<forall>j. gbucket s' j = (if j \<in> set ks then u (gbucket s j) else gbucket s j))"
  using inv pre run dist
proof (induction ks arbitrary: s)
  case Nil
  then show ?case by simp
next
  case (Cons k ks)
  from Cons.prems(3) obtain s1 where a: "f s k = Inr s1" and b: "fold_result f s1 ks = Inr s'"
    by (auto split: sum.splits)
  have ck: "c (gbucket s k)" using Cons.prems(2) by simp
  from step[OF Cons.prems(1) ck a] have i1: "I s1" and qk: "q (gbucket s k)"
    and g1: "\<And>j. gbucket s1 j = (if j = k then u (gbucket s k) else gbucket s j)"
    by auto
  have kn: "k \<notin> set ks" and d: "distinct ks" using Cons.prems(4) by auto
  have same: "gbucket s1 j = gbucket s j" if "j \<in> set ks" for j
    using that kn g1[of j] by auto
  have pre1: "\<forall>j \<in> set ks. c (gbucket s1 j)"
    using same Cons.prems(2) by simp
  from Cons.IH[OF i1 pre1 b d] have i': "I s'"
    and q': "\<forall>j \<in> set ks. q (gbucket s1 j)"
    and g': "\<And>j. gbucket s' j = (if j \<in> set ks then u (gbucket s1 j) else gbucket s1 j)"
    by auto
  have q2: "\<forall>j \<in> set (k # ks). q (gbucket s j)"
    using q' same qk by simp
  have "gbucket s' j = (if j \<in> set (k # ks) then u (gbucket s j) else gbucket s j)" for j
    using g'[of j] g1[of j] kn by auto
  then show ?case using i' q2 by blast
qed

lemma start_bucket_step:
  assumes "same_but_grads s0 s" and "status (gbucket s k) \<noteq> SYNCING"
    and "start_bucket pg s k = Inr s'"
  shows "same_but_grads s0 s' \<and>
         (distributed_size s0 \<noteq> 1 \<longrightarrow> grads_bucket (gbucket s k) \<noteq> None) \<and>
         (\<forall>j. gbucket s' j = (if j = k then begun pg (distributed_size s0) (gbucket s k)
                               else gbucket s j))"
proof -
  have ds: "distributed_size s = distributed_size s0"
    using same_but_grads_fields(6)[OF assms(1)] .
  have 1: "same_but_grads s0 s'"
    using same_but_grads_trans[OF assms(1) start_bucket_same[OF assms(3)]] .
  have 2: "distributed_size s0 \<noteq> 1 \<longrightarrow> grads_bucket (gbucket s k) \<noteq> None"
    using assms(2,3) ds
    by (auto simp: start_bucket_def Let_def split: if_splits option.splits)
  have 3: "gbucket s' j = (if j = k then begun pg (distributed_size s0) (gbucket s k)
                           else gbucket s j)" for j
    using assms(2,3) ds
    by (auto simp: start_bucket_def begun_def Let_def split: if_splits option.splits)
  show ?thesis using 1 2 3 by blast
qed

lemma reduce_scatter_bucket_step:
  assumes "same_but_grads s0 s" and "reduce_scatter_bucket pg s k = Inr s'"
  shows "same_but_grads s0 s' \<and>
         (grads_bucket (gbucket s k) \<noteq> None \<and> sync_grads_shard (gbucket s k) \<noteq> None) \<and>
         (\<forall>j. gbucket s' j = (if j = k then scattered pg (reduce_op s0) (gbucket s k)
                               else gbucket s j))"
proof -
  have ro: "reduce_op s = reduce_op s0"
    using same_but_grads_fields(11)[OF assms(1)] by (simp add: reduce_op_def)
  have 1: "same_but_grads s0 s'"
    using same_but_grads_trans[OF assms(1) reduce_scatter_bucket_same[OF assms(2)]] .
  have 2: "grads_bucket (gbucket s k) \<noteq> None \<and> sync_grads_shard (gbucket s k) \<noteq> None"
    using assms(2) by (auto simp: reduce_scatter_bucket_def Let_def split: option.splits)
  have 3: "gbucket s' j = (if j = k then scattered pg (reduce_op s0) (gbucket s k)
                           else gbucket s j)" for j
    using assms(2) ro
    by (auto simp: reduce_scatter_bucket_def scattered_def Let_def split: option.splits)
  show ?thesis using 1 2 3 by blast
qed

lemma all_reduce_bucket_step:
  assumes "same_but_grads s0 s" and "all_reduce_bucket pg s k = Inr s'"
  shows "same_but_grads s0 s' \<and>
         sync_grads_shard (gbucket s k) \<noteq> None \<and>
         (\<forall>j. gbucket s' j =
               (if j = k then reduced pg (reduce_op s0) (distributed_size s0) (gbucket s k)
                else gbucket s j))"
proof -
  have ro: "reduce_op s = reduce_op s0"
    using same_but_grads_fields(11)[OF assms(1)] by (simp add: reduce_op_def)
  have ds: "distributed_size s = distributed_size s0"
    using same_but_grads_fields(6)[OF assms(1)] .
  have 1: "same_but_grads s0 s'"
    using same_but_grads_trans[OF assms(1) all_reduce_bucket_same[OF assms(2)]] .
  have 2: "sync_grads_shard (gbucket s k) \<noteq> None"
    using assms(2) by (auto simp: all_reduce_bucket_def Let_def split: option.splits)
  have 3: "gbucket s' j =
             (if j = k then reduced pg (reduce_op s0) (distributed_size s0) (gbucket s k)
              else gbucket s j)" for j
    using assms(2) ro ds
    by (auto simp: all_reduce_bucket_def reduced_def Let_def split: option.splits)
  show ?thesis using 1 2 3 by blast
qed

lemma launched_compose:
  assumes q1: "d \<noteq> 1 \<longrightarrow> grads_bucket b \<noteq> None"
    and q3: "1 < r \<longrightarrow> sync_grads_shard (if 1 < d then scattered pg ro (begun pg d b) else begun pg d b) \<noteq> None"
    and d: "distributed_size s = d" and r: "redundant_size s = r" and ro: "reduce_op s = ro"
  shows "(let b2 = begun pg d b;
              b3 = (if 1 < d then scattered pg ro b2 else b2)
          in if 1 < r then reduced pg ro d b3 else b3) = launched pg s b"
proof (cases "d = 1")
  case True
  show ?thesis
  proof (cases "1 < r")
    case True
    with q3 \<open>d = 1\<close> obtain xs where xs: "grads_bucket b = Some xs"
      by (auto simp: begun_def)
    show ?thesis using True \<open>d = 1\<close> xs d r ro
      by (simp add: begun_def reduced_def launched_def communicated_def Let_def)
  next
    case False
    have "communicated pg s = (\<lambda>xs. xs)"
      using False \<open>d = 1\<close> d r by (auto simp: communicated_def Let_def)
    then show ?thesis using False \<open>d = 1\<close> d r
      by (simp add: begun_def launched_def option.map_ident)
  qed
next
  case False
  with q1 obtain xs where xs: "grads_bucket b = Some xs" by auto
  show ?thesis using False xs d r ro
    by (simp add: begun_def scattered_def reduced_def launched_def communicated_def Let_def)
qed

lemma start_sync_effect:
  assumes run: "start_bucket_grad_sync pg s ks = Inr s'" and dist: "distinct ks"
  obtains s1 where "finish_bucket_grad_sync s = Inr s1"
    and "\<And>j. gbucket s' j = (if j \<in> set ks then launched pg s (gbucket s1 j) else gbucket s1 j)"
proof -
  define d where "d = distributed_size s"
  define r where "r = redundant_size s"
  define ro where "ro = reduce_op s"
  from run obtain s1 s2 s3 where
    a: "finish_bucket_grad_sync s = Inr s1"
    and b: "fold_result (start_bucket pg) s1 ks = Inr s2"
    and c: "(if 1 < distributed_size s2 then fold_result (reduce_scatter_bucket pg) s2 ks else Inr s2) = Inr s3"
    and e: "(if 1 < redundant_size s3 then fold_result (all_reduce_bucket pg) s3 ks else Inr s3) = Inr s'"
    by (auto simp: start_bucket_grad_sync_def split: sum.splits)
  have i1: "same_but_grads s s1" using finish_same[OF a] .
  have c1: "\<forall>k \<in> set ks. status (gbucket s1 k) \<noteq> SYNCING"
    using finish_status[OF a] by simp
  have st2: "same_but_grads s s2 \<and>
        (\<forall>k \<in> set ks. distributed_size s \<noteq> 1 \<longrightarrow> grads_bucket (gbucket s1 k) \<noteq> None) \<and>
        (\<forall>j. gbucket s2 j = (if j \<in> set ks then begun pg (distributed_size s) (gbucket s1 j)
                              else gbucket s1 j))"
    by (rule fold_pointwise_q[where f = "start_bucket pg" and I = "same_but_grads s"
          and c = "\<lambda>b. status b \<noteq> SYNCING", OF _ i1 c1 b dist])
       (rule start_bucket_step)
  then have i2: "same_but_grads s s2"
    and q2: "\<And>k. k \<in> set ks \<Longrightarrow> d \<noteq> 1 \<longrightarrow> grads_bucket (gbucket s1 k) \<noteq> None"
    and g2: "\<And>j. gbucket s2 j = (if j \<in> set ks then begun pg d (gbucket s1 j) else gbucket s1 j)"
    by (auto simp: d_def)
  have d2: "distributed_size s2 = d"
    using same_but_grads_fields(6)[OF i2] by (simp add: d_def)
  have st3: "same_but_grads s s3 \<and>
        (\<forall>j. gbucket s3 j = (if j \<in> set ks
                              then (if 1 < d then scattered pg ro (gbucket s2 j) else gbucket s2 j)
                              else gbucket s2 j))"
  proof (cases "1 < d")
    case True
    with c d2 have c': "fold_result (reduce_scatter_bucket pg) s2 ks = Inr s3" by simp
    have t: "\<forall>k \<in> set ks. (\<lambda>b. True) (gbucket s2 k)" by simp
    have "same_but_grads s s3 \<and>
        (\<forall>k \<in> set ks. grads_bucket (gbucket s2 k) \<noteq> None \<and> sync_grads_shard (gbucket s2 k) \<noteq> None) \<and>
        (\<forall>j. gbucket s3 j = (if j \<in> set ks then scattered pg (reduce_op s) (gbucket s2 j)
                              else gbucket s2 j))"
      by (rule fold_pointwise_q[where f = "reduce_scatter_bucket pg" and I = "same_but_grads s"
            and c = "\<lambda>b. True", OF _ i2 t c' dist])
         (rule reduce_scatter_bucket_step)
    then show ?thesis using True by (simp add: ro_def)
  next
    case False
    with c d2 have "s3 = s2" by simp
    then show ?thesis using False i2 by simp
  qed
  then have i3: "same_but_grads s s3"
    and g3: "\<And>j. gbucket s3 j = (if j \<in> set ks
                              then (if 1 < d then scattered pg ro (gbucket s2 j) else gbucket s2 j)
                              else gbucket s2 j)"
    by auto
  have r3: "redundant_size s3 = r"
    using same_but_grads_fields(7)[OF i3] by (simp add: r_def)
  have st4: "(\<forall>k \<in> set ks. 1 < r \<longrightarrow> sync_grads_shard (gbucket s3 k) \<noteq> None) \<and>
        (\<forall>j. gbucket s' j = (if j \<in> set ks
                              then (if 1 < r then reduced pg ro d (gbucket s3 j) else gbucket s3 j)
                              else gbucket s3 j))"
  proof (cases "1 < r")
    case True
    with e r3 have e': "fold_result (all_reduce_bucket pg) s3 ks = Inr s'" by simp
    have t: "\<forall>k \<in> set ks. (\<lambda>b. True) (gbucket s3 k)" by simp
    have "same_but_grads s s' \<and>
        (\<forall>k \<in> set ks. sync_grads_shard (gbucket s3 k) \<noteq> None) \<and>
        (\<forall>j. gbucket s' j =
              (if j \<in> set ks then reduced pg (reduce_op s) (distributed_size s) (gbucket s3 j)
               else gbucket s3 j))"
      by (rule fold_pointwise_q[where f = "all_reduce_bucket pg" and I = "same_but_grads s"
            and c = "\<lambda>b. True", OF _ i3 t e' dist])
         (rule all_reduce_bucket_step)
    then show ?thesis using True by (simp add: ro_def d_def)
  next
    case False
    with e r3 have "s' = s3" by simp
    then show ?thesis using False by simp
  qed
  then have q4: "\<And>k. k \<in> set ks \<Longrightarrow> 1 < r \<longrightarrow> sync_grads_shard (gbucket s3 k) \<noteq> None"
    and g4: "\<And>j. gbucket s' j = (if j \<in> set ks
                              then (if 1 < r then reduced pg ro d (gbucket s3 j) else gbucket s3 j)
                              else gbucket s3 j)"
    by auto
  have "gbucket s' j = (if j \<in> set ks then launched pg s (gbucket s1 j) else gbucket s1 j)" for j
  proof (cases "j \<in> set ks")
    case True
    have e2: "gbucket s2 j = begun pg d (gbucket s1 j)" using g2[of j] True by simp
    have e3: "gbucket s3 j = (if 1 < d then scattered pg ro (begun pg d (gbucket s1 j))
                              else begun pg d (gbucket s1 j))"
      using g3[of j] True e2 by simp
    have e4: "gbucket s' j = (if 1 < r then reduced pg ro d (gbucket s3 j) else gbucket s3 j)"
      using g4[of j] True by simp
    have q3: "1 < r \<longrightarrow> sync_grads_shard (if 1 < d then scattered pg ro (begun pg d (gbucket s1 j))
                              else begun pg d (gbucket s1 j)) \<noteq> None"
      using q4[OF True] e3 by simp
    have "launched pg s (gbucket s1 j) =
          (let b2 = begun pg d (gbucket s1 j);
               b3 = (if 1 < d then scattered pg ro b2 else b2)
           in if 1 < r then reduced pg ro d b3 else b3)"
      by (rule launched_compose[OF q2[OF True] q3, symmetric]) (simp_all add: d_def r_def ro_def)
    then show ?thesis using e4 e3 True by (simp add: Let_def)
  next
    case False
    then show ?thesis using g2[of j] g3[of j] g4[of j] by simp
  qed
  with a that show ?thesis by blast
qed

lemma force_prepare_same: "force_prepare s k = Inr s' \<Longrightarrow> same_but_grads s s'"
  by (auto simp: force_prepare_def Let_def split: if_splits sum.splits)

lemma force_prepare_fold_same:
  "fold_result force_prepare s ks = Inr s' \<Longrightarrow> same_but_grads s s'"
  by (rule fold_result_same[of force_prepare]) (auto intro: force_prepare_same)

lemma communicated_same:
  "same_but_grads s s' \<Longrightarrow> communicated pg s' = communicated pg s"
  using same_but_grads_fields(6,7,11)[of s s']
  by (auto simp: communicated_def reduce_op_def fun_eq_iff)

lemma launched_same:
  assumes "same_but_grads s s'"
  shows "launched pg s' = launched pg s"
proof -
  have c: "communicated pg s' = communicated pg s" by (rule communicated_same[OF assms])
  have d: "distributed_size s' = distributed_size s"
    and r: "redundant_size s' = redundant_size s"
    using same_but_grads_fields(6,7)[OF assms] by simp_all
  have "launched pg s' b = launched pg s b" for b
    unfolding launched_def c d r ..
  then show ?thesis by (rule ext)
qed

lemma fill_shard_effect:
  "gbucket (fill_shard s k) j =
     (if j = k \<and> grads_shard (gbucket s k) = None
      then (gbucket s k)\<lparr>grads_shard := Some (zeros (shard_size (buckets s ! k)))\<rparr>
      else gbucket s j)"
  "buckets (fill_shard s k) = buckets s"
  "fst ` set (grads_buckets (fill_shard s k)) = insert k (fst ` set (grads_buckets s))"
  by (auto simp: fill_shard_def Let_def)

lemma fill_fold_effect:
  "buckets (foldl fill_shard s ks) = buckets s \<and>
   fst ` set (grads_buckets (foldl fill_shard s ks)) = set ks \<union> fst ` set (grads_buckets s) \<and>
   gbucket (foldl fill_shard s ks) j =
     (if j \<in> set ks \<and> grads_shard (gbucket s j) = None
      then (gbucket s j)\<lparr>grads_shard := Some (zeros (shard_size (buckets s ! j)))\<rparr>
      else gbucket s j)"
proof (induction ks arbitrary: s)
  case Nil
  then show ?case by simp
next
  case (Cons k ks)
  note ih = Cons.IH[of "fill_shard s k"]
  note e = fill_shard_effect[of s k]
  show ?case
  proof (cases "j = k")
    case True
    then show ?thesis using ih e(1)[of k] e(2,3) by (auto split: if_splits)
  next
    case False
    then show ?thesis using ih e(1)[of j] e(2,3) by (auto split: if_splits)
  qed
qed

lemma force_stages:
  assumes "force_bucket_grad_sync pg s = Inr s'"
  obtains s1 s2 s3 where
    "fold_result force_prepare s (sorted_keys s) = Inr s1"
    "(if unsynchronized s1 \<noteq> [] then start_bucket_grad_sync pg s1 (unsynchronized s1) else Inr s1) = Inr s2"
    "finish_bucket_grad_sync s2 = Inr s3"
    "s' = foldl fill_shard s3 [0..<length (buckets s3)]"
  using assms by (auto simp: force_bucket_grad_sync_def split: sum.splits)

lemma force_unsettled:
  assumes run: "force_bucket_grad_sync pg s = Inr s'"
    and un: "\<not> settled s k"
  shows "status (gbucket s' k) = READY \<and>
         (\<exists>shard. grads_shard (gbucket s' k) = Some shard \<and>
            (case grads_shard (gbucket s k) of
               None \<Rightarrow> Inr (communicated pg s
                              (case grads_bucket (gbucket s k) of
                                 None \<Rightarrow> zeros (bucket_size (buckets s ! k)) | Some xs \<Rightarrow> xs))
             | Some g \<Rightarrow> tensor_add g (communicated pg s
                              (case grads_bucket (gbucket s k) of
                                 None \<Rightarrow> zeros (bucket_size (buckets s ! k)) | Some xs \<Rightarrow> xs)))
            = Inr shard)"
proof -
  define buf where "buf = (case grads_bucket (gbucket s k) of
                             None \<Rightarrow> zeros (bucket_size (buckets s ! k)) | Some xs \<Rightarrow> xs)"
  from force_stages[OF run] obtain s1 s2 s3 where
    a: "fold_result force_prepare s (sorted_keys s) = Inr s1"
    and b: "(if unsynchronized s1 \<noteq> [] then start_bucket_grad_sync pg s1 (unsynchronized s1) else Inr s1) = Inr s2"
    and c: "finish_bucket_grad_sync s2 = Inr s3"
    and d: "s' = foldl fill_shard s3 [0..<length (buckets s3)]"
    by blast
  have key: "k \<in> set (sorted_keys s)"
    using un unsynchronized_iff[of k s] by (auto simp: unsynchronized_def)
  have g1: "gbucket s1 k = (gbucket s k)\<lparr>grads_bucket := Some buf\<rparr>"
    using force_prepare_fold[OF a, of k] key un
    by (auto simp: buf_def split: option.splits)
  have un1: "\<not> settled s1 k" using g1 un by (simp add: settled_def)
  then have mem: "k \<in> set (unsynchronized s1)" by (simp add: unsynchronized_iff)
  then have ne: "unsynchronized s1 \<noteq> []" by auto
  with b have b': "start_bucket_grad_sync pg s1 (unsynchronized s1) = Inr s2" by simp
  from start_sync_effect[OF b' distinct_unsynchronized] obtain s1f where
    f: "finish_bucket_grad_sync s1 = Inr s1f"
    and g2: "\<And>j. gbucket s2 j = (if j \<in> set (unsynchronized s1)
                                  then launched pg s1 (gbucket s1f j) else gbucket s1f j)"
    by blast
  have ns: "status (gbucket s1 k) \<noteq> SYNCING" using un1 by (simp add: settled_def)
  have g1f: "gbucket s1f k = gbucket s1 k" using finish_unchanged[OF f ns] .
  have l: "launched pg s1 = launched pg s"
    using launched_same[OF force_prepare_fold_same[OF a]] .
  have c1: "communicated pg s1 = communicated pg s"
    using communicated_same[OF force_prepare_fold_same[OF a]] .
  have e2: "gbucket s2 k = launched pg s ((gbucket s k)\<lparr>grads_bucket := Some buf\<rparr>)"
    using g2[of k] mem g1f g1 l by simp
  have st2: "status (gbucket s2 k) = SYNCING"
    and sh2: "grads_shard (gbucket s2 k) = grads_shard (gbucket s k)"
    and sy2: "sync_grads_shard (gbucket s2 k) = Some (communicated pg s buf)"
    using e2 by (simp_all add: launched_def)
  have fin: "finished (gbucket s2 k) (gbucket s3 k)" using finish_effect[OF c] .
  have st3: "status (gbucket s3 k) = READY" using fin st2 by (simp add: finished_def)
  have sh3: "\<exists>shard. grads_shard (gbucket s3 k) = Some shard \<and>
            (case grads_shard (gbucket s k) of
               None \<Rightarrow> Inr (communicated pg s buf)
             | Some g \<Rightarrow> tensor_add g (communicated pg s buf)) = Inr shard"
    using fin st2 sh2 sy2 by (auto simp: finished_def split: option.splits)
  then have "grads_shard (gbucket s3 k) \<noteq> None" by auto
  then have "gbucket s' k = gbucket s3 k"
    using fill_fold_effect[of s3 "[0..<length (buckets s3)]" k] d by simp
  then show ?thesis using st3 sh3 unfolding buf_def by simp
qed

lemma force_settled:
  assumes run: "force_bucket_grad_sync pg s = Inr s'"
    and se: "settled s k"
  obtains b where "finished (gbucket s k) b" and "status b = READY"
    and "buckets s' = buckets s"
    and "gbucket s' k =
          (if k < length (buckets s) \<and> grads_shard b = None
           then b\<lparr>grads_shard := Some (zeros (shard_size (buckets s ! k)))\<rparr> else b)"
proof -
  from force_stages[OF run] obtain s1 s2 s3 where
    a: "fold_result force_prepare s (sorted_keys s) = Inr s1"
    and b: "(if unsynchronized s1 \<noteq> [] then start_bucket_grad_sync pg s1 (unsynchronized s1) else Inr s1) = Inr s2"
    and c: "finish_bucket_grad_sync s2 = Inr s3"
    and d: "s' = foldl fill_shard s3 [0..<length (buckets s3)]"
    by blast
  have g1: "gbucket s1 k = gbucket s k"
    using force_prepare_fold[OF a, of k] se by simp
  have se1: "settled s1 k" using g1 se by (simp add: settled_def)
  then have nm: "k \<notin> set (unsynchronized s1)" by (simp add: unsynchronized_iff)
  have bs1: "buckets s1 = buckets s" using force_prepare_fold[OF a, of k] by simp
  have f2: "buckets s2 = buckets s \<and>
            (gbucket s2 k = gbucket s k \<or>
             finished (gbucket s k) (gbucket s2 k) \<and> status (gbucket s2 k) \<noteq> SYNCING)"
  proof (cases "unsynchronized s1 = []")
    case True
    with b have "s2 = s1" by simp
    then show ?thesis using g1 bs1 by simp
  next
    case False
    with b have b': "start_bucket_grad_sync pg s1 (unsynchronized s1) = Inr s2" by simp
    from start_sync_effect[OF b' distinct_unsynchronized] obtain s1f where
      f: "finish_bucket_grad_sync s1 = Inr s1f"
      and g2: "\<And>j. gbucket s2 j = (if j \<in> set (unsynchronized s1)
                                  then launched pg s1 (gbucket s1f j) else gbucket s1f j)"
      by blast
    have e: "gbucket s2 k = gbucket s1f k" using g2[of k] nm by simp
    have fin: "finished (gbucket s k) (gbucket s1f k)" using finish_effect[OF f, of k] g1 by simp
    have ns: "status (gbucket s1f k) \<noteq> SYNCING" using finished_status[OF fin] by auto
    have "buckets s2 = buckets s"
      using same_but_grads_fields(2)[OF start_bucket_grad_sync_same[OF b']] bs1 by simp
    then show ?thesis using e fin ns by simp
  qed
  have fin3: "finished (gbucket s2 k) (gbucket s3 k)" using finish_effect[OF c] .
  have bs3: "buckets s3 = buckets s" using finish_buckets[OF c] f2 by simp
  have f3: "finished (gbucket s k) (gbucket s3 k)"
  proof (cases "gbucket s2 k = gbucket s k")
    case True
    then show ?thesis using fin3 by simp
  next
    case False
    then have x: "finished (gbucket s k) (gbucket s2 k)" and y: "status (gbucket s2 k) \<noteq> SYNCING"
      using f2 by auto
    have "gbucket s3 k = gbucket s2 k" using finished_not_syncing[OF fin3 y] .
    then show ?thesis using x by simp
  qed
  have st3: "status (gbucket s3 k) = READY"
    using finished_status[OF f3] se by (auto simp: settled_def)
  have bs': "buckets s' = buckets s"
    using fill_fold_effect[of s3 "[0..<length (buckets s3)]" k] d bs3 by simp
  have g': "gbucket s' k =
          (if k < length (buckets s) \<and> grads_shard (gbucket s3 k) = None
           then (gbucket s3 k)\<lparr>grads_shard := Some (zeros (shard_size (buckets s ! k)))\<rparr>
           else gbucket s3 k)"
    using fill_fold_effect[of s3 "[0..<length (buckets s3)]" k] d bs3 by simp
  show ?thesis using that[OF f3 st3 bs' g'] .
qed

lemma force_keys:
  assumes run: "force_bucket_grad_sync pg s = Inr s'"
  shows "buckets s' = buckets s \<and> {0..<length (buckets s)} \<subseteq> fst ` set (grads_buckets s')"
proof -
  from force_stages[OF run] obtain s1 s2 s3 where
    a: "fold_result force_prepare s (sorted_keys s) = Inr s1"
    and b: "(if unsynchronized s1 \<noteq> [] then start_bucket_grad_sync pg s1 (unsynchronized s1) else Inr s1) = Inr s2"
    and c: "finish_bucket_grad_sync s2 = Inr s3"
    and d: "s' = foldl fill_shard s3 [0..<length (buckets s3)]"
    by blast
  have "same_but_grads s1 s2"
    using b start_bucket_grad_sync_same by (auto split: if_splits)
  then have "buckets s3 = buckets s"
    using finish_buckets[OF c] same_but_grads_fields(2)[of s1 s2]
      same_but_grads_fields(2)[OF force_prepare_fold_same[OF a]] by simp
  then show ?thesis
    using fill_fold_effect[of s3 "[0..<length (buckets s3)]" 0] d by auto
qed

lemma half_filled_fields:
  "map (\<lambda>b. (bucket_size b, shard_size b)) (buckets half_filled) = [(2, 2), (2, 2)]"
  "grads_buckets half_filled =
     [(0, \<lparr>grads_shard = None, grads_bucket = Some [5, 7], sync_grads_shard = None,
            status = PARTIALLY_FILLED, grads_generated = {}\<rparr>)]"
  "distributed_size half_filled = 1"
  "redundant_size half_filled = 1"
  by (simp_all add: half_filled_def tiny_def engine_defs eval_defs split_param.simps
        eval_nat_numeral)

section \<open>Shard sizes\<close>

text \<open>
  Claim C6. \<^verbatim>\<open>init_params\<close> on the optimizer as its constructor leaves it ends, and it
  raises only the \<^verbatim>\<open>ZeroDivisionError\<close> of the utilization of an optimizer without
  parameters. When it returns, every bucket has the default shard size: the quotient of
  the bucket size by the distributed world size, rounded down to a multiple of the
  alignment unit and at least one alignment unit, where the alignment unit is 128 bytes
  over the width of the gradient synchronization datatype; and the bucket size is the
  shard size times the world size.
\<close>

theorem C6_shard_size:
  assumes "0 < dist_size"
  shows "\<exists>r. init_params (init gsd raw dist_size dist_rank red avg og ov groups numel_of grad_of) params
             = Some r \<and>
           (\<forall>e. r = Inl e \<longrightarrow> e = ZeroDivisionError \<and> concat groups = []) \<and>
           (\<forall>self'. r = Inr self' \<longrightarrow>
              (\<forall>b\<in>set (buckets self').
                 shard_size b = max (round_to_multiple (bucket_size b div dist_size)
                                      (128 div (finfo_bits gsd div 8)) False)
                                  (128 div (finfo_bits gsd div 8)) \<and>
                 shard_size b = max (round_to_multiple raw (128 div (finfo_bits gsd div 8)) False)
                                  (128 div (finfo_bits gsd div 8)) \<and>
                 128 div (finfo_bits gsd div 8) \<le> shard_size b \<and>
                 bucket_size b = shard_size b * dist_size))"
proof -
  let ?s0 = "init gsd raw dist_size dist_rank red avg og ov groups numel_of grad_of"
  let ?A = "init_alignment gsd"
  let ?D = "init_default_shard_size gsd raw"
  have al: "alignment ?s0 = ?A" and ds: "default_shard_size ?s0 = ?D"
    and dz: "distributed_size ?s0 = dist_size" and bk: "buckets ?s0 = []"
    and pf: "param_fragments ?s0 = Map.empty" and pgs: "param_groups ?s0 = groups"
    by (simp_all add: init_def)
  have A: "0 < alignment ?s0" using init_alignment_pos[of gsd] al by simp
  have Dpos: "0 < ?D" using init_default_shard_size_ge[of gsd raw] init_alignment_pos[of gsd] by linarith
  have B: "0 < default_shard_size ?s0 * distributed_size ?s0"
    using Dpos assms ds dz by simp
  have S: "\<forall>b\<in>set (buckets ?s0). sized (default_shard_size ?s0) (distributed_size ?s0) b"
    using bk by simp
  have I: "(\<exists>q. param_fragments ?s0 q \<noteq> None) \<longrightarrow> buckets ?s0 \<noteq> []"
    using pf by simp
  have Aeq: "128 div (finfo_bits gsd div 8) = ?A"
    by (simp add: init_alignment_def dtype_size_def)
  have Deq: "max (round_to_multiple raw ?A False) ?A = ?D"
    by (simp add: init_default_shard_size_def Let_def)
  have rfx: "round_to_multiple ?D ?A False = ?D"
    using init_default_shard_size_dvd by (rule round_down_fix)
  have ge: "?A \<le> ?D" by (rule init_default_shard_size_ge)
  have good: "shard_size b = max (round_to_multiple (bucket_size b div dist_size) ?A False) ?A \<and>
        shard_size b = max (round_to_multiple raw ?A False) ?A \<and>
        ?A \<le> shard_size b \<and> bucket_size b = shard_size b * dist_size"
    if "sized ?D dist_size b" for b
  proof -
    from that have s: "shard_size b = ?D" and z: "bucket_size b = ?D * dist_size"
      by (simp_all add: sized_def)
    have q: "bucket_size b div dist_size = ?D" using z assms by simp
    have m: "max ?D ?A = ?D" using ge by simp
    show ?thesis unfolding q rfx Deq s m using z ge by simp
  qed
  let ?ps = "filter (\<lambda>p. param_fragments ?s0 p = None)
               (case params of None \<Rightarrow> parameters ?s0 | Some ps \<Rightarrow> ps)"
  show ?thesis
  proof (cases "?ps = []")
    case True
    then have run: "init_params ?s0 params = Some (Inr ?s0)"
      by (simp add: init_params_def Let_def)
    have e: "\<forall>e. (Inr ?s0 :: error + 'a DistributedFusedAdam) = Inl e \<longrightarrow>
                 e = ZeroDivisionError \<and> concat groups = []" by simp
    have a: "\<forall>s. (Inr ?s0 :: error + 'a DistributedFusedAdam) = Inr s \<longrightarrow>
        (\<forall>b\<in>set (buckets s).
        shard_size b = max (round_to_multiple (bucket_size b div dist_size) ?A False) ?A \<and>
        shard_size b = max (round_to_multiple raw ?A False) ?A \<and>
        ?A \<le> shard_size b \<and> bucket_size b = shard_size b * dist_size)"
      using bk by simp
    show ?thesis unfolding Aeq
      by (rule exI[of _ "Inr ?s0"]) (rule conjI[OF run conjI[OF e a]])
  next
    case False
    obtain self' where lp: "init_params_loop ?s0 ?ps = Some self'"
      and sz: "\<forall>b\<in>set (buckets self'). sized (default_shard_size ?s0) (distributed_size ?s0) b"
      and ne: "(\<exists>q. param_fragments self' q \<noteq> None) \<longrightarrow> buckets self' \<noteq> []"
      and pg: "param_groups self' = param_groups ?s0"
      using init_params_loop_inv[OF A B S I] by blast
    have run: "init_params ?s0 params = Some (check_utilization self')"
      using False lp by (simp add: init_params_def Let_def)
    have sz': "\<forall>b\<in>set (buckets self'). sized ?D dist_size b" using sz ds dz by simp
    have pos: "0 < ?D * dist_size" using Dpos assms by simp
    from check_utilization_cases[OF sz' pos ne]
    have cases: "check_utilization self' = Inr self' \<or>
         (check_utilization self' = Inl ZeroDivisionError \<and> concat groups = [])"
      using pg pgs by simp
    have all: "\<forall>b\<in>set (buckets self').
        shard_size b = max (round_to_multiple (bucket_size b div dist_size) ?A False) ?A \<and>
        shard_size b = max (round_to_multiple raw ?A False) ?A \<and>
        ?A \<le> shard_size b \<and> bucket_size b = shard_size b * dist_size"
      using sz' good by blast
    from cases show ?thesis
    proof
      assume c: "check_utilization self' = Inr self'"
      have r: "init_params ?s0 params = Some (Inr self')" using run c by simp
      have e: "\<forall>e. (Inr self' :: error + 'a DistributedFusedAdam) = Inl e \<longrightarrow>
                 e = ZeroDivisionError \<and> concat groups = []" by simp
      have a: "\<forall>s. (Inr self' :: error + 'a DistributedFusedAdam) = Inr s \<longrightarrow>
        (\<forall>b\<in>set (buckets s).
        shard_size b = max (round_to_multiple (bucket_size b div dist_size) ?A False) ?A \<and>
        shard_size b = max (round_to_multiple raw ?A False) ?A \<and>
        ?A \<le> shard_size b \<and> bucket_size b = shard_size b * dist_size)"
        using all by blast
      show ?thesis unfolding Aeq
        by (rule exI[of _ "Inr self'"]) (rule conjI[OF r conjI[OF e a]])
    next
      assume c: "check_utilization self' = Inl ZeroDivisionError \<and> concat groups = []"
      have r: "init_params ?s0 params = Some (Inl ZeroDivisionError)" using run c by simp
      have e: "\<forall>e. (Inl ZeroDivisionError :: error + 'a DistributedFusedAdam) = Inl e \<longrightarrow>
                 e = ZeroDivisionError \<and> concat groups = []" using c by simp
      have a: "\<forall>s. (Inl ZeroDivisionError :: error + 'a DistributedFusedAdam) = Inr s \<longrightarrow>
        (\<forall>b\<in>set (buckets s).
        shard_size b = max (round_to_multiple (bucket_size b div dist_size) ?A False) ?A \<and>
        shard_size b = max (round_to_multiple raw ?A False) ?A \<and>
        ?A \<le> shard_size b \<and> bucket_size b = shard_size b * dist_size)"
        by simp
      show ?thesis unfolding Aeq
        by (rule exI[of _ "Inl ZeroDivisionError"]) (rule conjI[OF r conjI[OF e a]])
    qed
  qed
qed

theorem C6_shard_size_witness:
  "(0::int) < 2 \<and>
   map (\<lambda>b. (bucket_size b, shard_size b))
     (buckets (projr (the (init_params (init Float32 100 2 0 1 True True False [[0]] (\<lambda>_. 10) Map.empty
        :: int DistributedFusedAdam) None)))) = [(192, 96)] \<and>
   init_params (init Float32 100 2 0 1 True True False [[]] (\<lambda>_. 10) Map.empty
        :: int DistributedFusedAdam) (Some [0]) = Some (Inl ZeroDivisionError) \<and>
   (\<exists>r. init_params (init Float32 100 2 0 1 True True False [[0]] (\<lambda>_. 10) Map.empty
        :: int DistributedFusedAdam) None = Some r \<and>
      (\<forall>e. r = Inl e \<longrightarrow> e = ZeroDivisionError \<and> concat [[0::nat]] = []) \<and>
      (\<forall>self'. r = Inr self' \<longrightarrow>
         (\<forall>b\<in>set (buckets self').
            shard_size b = max (round_to_multiple (bucket_size b div 2)
                                  (128 div (finfo_bits Float32 div 8)) False)
                             (128 div (finfo_bits Float32 div 8)) \<and>
            shard_size b = max (round_to_multiple 100 (128 div (finfo_bits Float32 div 8)) False)
                             (128 div (finfo_bits Float32 div 8)) \<and>
            128 div (finfo_bits Float32 div 8) \<le> shard_size b \<and>
            bucket_size b = shard_size b * 2)))"
proof -
  have h: "(0::int) < 2" by simp
  have e: "map (\<lambda>b. (bucket_size b, shard_size b))
     (buckets (projr (the (init_params (init Float32 100 2 0 1 True True False [[0]] (\<lambda>_. 10) Map.empty
        :: int DistributedFusedAdam) None)))) = [(192, 96)]"
    by (simp add: eval_defs split_param.simps)
  have z: "init_params (init Float32 100 2 0 1 True True False [[]] (\<lambda>_. 10) Map.empty
        :: int DistributedFusedAdam) (Some [0]) = Some (Inl ZeroDivisionError)"
    by (simp add: eval_defs)
  note t = C6_shard_size[OF h, of Float32 100 0 1 True True False "[[0]]" "\<lambda>_. 10" Map.empty None]
  show ?thesis
    by (rule conjI[OF h conjI[OF e conjI[OF z t]]])
qed

section \<open>One parameter on two ranks\<close>

text \<open>
  Claim C7, as amended. One parameter of 10 elements at distributed world size 2, from
  the optimizer as its constructor leaves it: the shard size is the default shard size, a
  multiple of the alignment unit and at least 32 elements (never 5); one bucket of twice
  that size holds the parameter as one fragment with bucket range \<open>[0, 10)\<close>; the fragment
  lies wholly in the shard of rank 0, which covers the parameter elements \<open>[0, 10)\<close>, and
  the shard of rank 1 holds no element of the parameter.
\<close>

theorem C7_single_parameter_two_ranks:
  fixes g :: "param \<rightharpoonup> 'a list"
  shows "\<exists>s0 s1 D.
     init_params (init gsd raw 2 0 red avg og ov [[p]] (\<lambda>_. 10) g) None = Some (Inr s0) \<and>
     init_params (init gsd raw 2 1 red avg og ov [[p]] (\<lambda>_. 10) g) None = Some (Inr s1) \<and>
     D = init_default_shard_size gsd raw \<and> 32 \<le> D \<and> init_alignment gsd dvd D \<and>
     map (\<lambda>b. (bucket_size b, shard_size b)) (buckets s0) = [(D * 2, D)] \<and>
     map (\<lambda>b. (bucket_size b, shard_size b)) (buckets s1) = [(D * 2, D)] \<and>
     map_option (map (\<lambda>f. (param_range f, bucket_range f, in_local_shard f, shard_param_range f)))
       (param_fragments s0 p) = Some [((0, 10), (0, 10), True, Some (0, 10))] \<and>
     map_option (map (\<lambda>f. (param_range f, bucket_range f, in_local_shard f, shard_param_range f)))
       (param_fragments s1 p) = Some [((0, 10), (0, 10), False, None)]"
proof -
  define D where "D = init_default_shard_size gsd raw"
  have D32: "32 \<le> D" unfolding D_def by (rule init_default_shard_size_ge32)
  have dv: "init_alignment gsd dvd D" unfolding D_def by (rule init_default_shard_size_dvd)
  have lt: "10 < D" using D32 by simp
  note r0 = init_params_single[OF D_def refl, of 0 red avg og ov p g]
  note r1 = init_params_single[OF D_def refl, of 1 red avg og ov p g]
  show ?thesis
    apply (rule exI, rule exI, rule exI[of _ D])
    apply (intro conjI)
            apply (rule r0)
           apply (rule r1)
          apply (rule D_def)
         apply (rule D32)
        apply (rule dv)
       apply (simp add: new_StateBucket_def)
      apply (simp add: new_StateBucket_def)
     apply (simp add: frag_rank0[OF lt])
    apply (simp add: frag_rank1[OF lt])
    done
qed

text \<open>
  The scenario of claim C7 as stated fails: with a gradient datatype of 32 bits and a
  requested quotient of 5 elements per rank the shard size is 32, rank 0 covers the
  elements \<open>[0, 10)\<close> and rank 1 has no local fragment.
\<close>

theorem C7_counterexample:
  "map shard_size (buckets (projr (the (init_params
      (init Float32 5 2 0 1 True True False [[0]] (\<lambda>_. 10) Map.empty :: int DistributedFusedAdam)
      None)))) = [32] \<and>
   map shard_param_range (the (param_fragments (projr (the (init_params
      (init Float32 5 2 0 1 True True False [[0]] (\<lambda>_. 10) Map.empty :: int DistributedFusedAdam)
      None))) 0)) = [Some (0, 10)] \<and>
   map in_local_shard (the (param_fragments (projr (the (init_params
      (init Float32 5 2 1 1 True True False [[0]] (\<lambda>_. 10) Map.empty :: int DistributedFusedAdam)
      None))) 0)) = [False]"
  by (simp add: eval_defs split_param.simps)

section \<open>The fragments of a parameter\<close>

text \<open>
  Claim C1. Lazy initialization of a parameter without fragments returns, and the
  fragments it records partition the flattened parameter: their parameter ranges are
  non-empty and contiguous from 0 to the element count \<open>n\<close>, their union is \<open>[0, n)\<close>, any
  two of them are disjoint, and each fragment names one bucket, in whose fragment list
  it is found.
\<close>

theorem C1_fragments_partition_parameter:
  assumes "0 < alignment self"
    and "0 < default_shard_size self * distributed_size self"
    and "param_fragments self p = None"
  shows "\<exists>self' fs. init_param_state self p gid pid = Some self' \<and>
           param_fragments self' p = Some fs \<and>
           chain 0 (map param_range fs) (int (numel self p)) \<and>
           (\<Union>f\<in>set fs. {fst (param_range f)..<snd (param_range f)}) = {0..<int (numel self p)} \<and>
           (\<forall>i<length fs. \<forall>j<length fs. i \<noteq> j \<longrightarrow>
              {fst (param_range (fs ! i))..<snd (param_range (fs ! i))} \<inter>
              {fst (param_range (fs ! j))..<snd (param_range (fs ! j))} = {}) \<and>
           (\<forall>f\<in>set fs. bucket_id f < length (buckets self') \<and>
                        f \<in> set (fragments (buckets self' ! bucket_id f)))"
proof -
  obtain self' fs where ip: "init_param_state self p gid pid = Some self'"
    and pf: "param_fragments self' p = Some fs"
    and ch: "chain 0 (map param_range fs) (int (numel self p))"
    and pl: "\<forall>f\<in>set fs. placed_in (buckets self') f"
    using init_param_state_partition[OF assms] by blast
  have un: "(\<Union>f\<in>set fs. {fst (param_range f)..<snd (param_range f)}) = {0..<int (numel self p)}"
    using chain_union[OF ch] by simp
  have dj: "{fst (param_range (fs ! i))..<snd (param_range (fs ! i))} \<inter>
            {fst (param_range (fs ! j))..<snd (param_range (fs ! j))} = {}"
    if "i < length fs" "j < length fs" "i \<noteq> j" for i j
    using chain_disjoint[OF ch, of i j] that by simp
  have pb: "\<forall>f\<in>set fs. bucket_id f < length (buckets self') \<and>
                        f \<in> set (fragments (buckets self' ! bucket_id f))"
    using pl by (simp add: placed_in_def)
  show ?thesis using ip pf ch un dj pb by blast
qed

theorem C1_fragments_partition_parameter_witness:
  "0 < alignment ex70 \<and> 0 < default_shard_size ex70 * distributed_size ex70 \<and>
   param_fragments ex70 0 = None \<and>
   map_option (map (\<lambda>f. (param_range f, bucket_id f)))
     (param_fragments (the (init_param_state ex70 0 0 0)) 0) =
     Some [((0, 32), 0), ((32, 64), 1), ((64, 70), 2)] \<and>
   (\<exists>self' fs. init_param_state ex70 0 0 0 = Some self' \<and>
           param_fragments self' 0 = Some fs \<and>
           chain 0 (map param_range fs) (int (numel ex70 0)) \<and>
           (\<Union>f\<in>set fs. {fst (param_range f)..<snd (param_range f)}) = {0..<int (numel ex70 0)} \<and>
           (\<forall>i<length fs. \<forall>j<length fs. i \<noteq> j \<longrightarrow>
              {fst (param_range (fs ! i))..<snd (param_range (fs ! i))} \<inter>
              {fst (param_range (fs ! j))..<snd (param_range (fs ! j))} = {}) \<and>
           (\<forall>f\<in>set fs. bucket_id f < length (buckets self') \<and>
                        f \<in> set (fragments (buckets self' ! bucket_id f))))"
proof -
  have h1: "0 < alignment ex70" by (simp add: ex70_def eval_defs)
  have h2: "0 < default_shard_size ex70 * distributed_size ex70" by (simp add: ex70_def eval_defs)
  have h3: "param_fragments ex70 0 = None" by (simp add: ex70_def eval_defs)
  have e: "map_option (map (\<lambda>f. (param_range f, bucket_id f)))
     (param_fragments (the (init_param_state ex70 0 0 0)) 0) =
     Some [((0, 32), 0), ((32, 64), 1), ((64, 70), 2)]"
    by (simp add: ex70_def eval_defs split_param.simps)
  note t = C1_fragments_partition_parameter[OF h1 h2 h3, of 0 0]
  show ?thesis
    by (rule conjI[OF h1 conjI[OF h2 conjI[OF h3 conjI[OF e t]]]])
qed

section \<open>Placement of fragments in buckets\<close>

text \<open>
  Claim C3, as amended. Mapping a parameter that has no fragments returns, in any state
  of the optimizer, and changes the bucket list as follows, where the list it starts
  from is the bucket list, or one new bucket when there is none. The buckets before the
  last one stay as they are. The last bucket and every bucket opened after it take
  fragments only at their end: each fragment starts at the fill level of its bucket at
  that moment rounded up to a multiple of the alignment unit, no fragment ends beyond the
  size of its bucket, and a bucket marked not fillable takes none. Every bucket opened
  is a new bucket of the default size. A new bucket is opened only after a bucket that
  is marked not fillable or whose fill level rounded up to the alignment unit has
  reached its size; elements below the size can stay unused. In the scenario of two
  parameters of 8 and 4 elements, a bucket of 16 elements and the alignment unit 4, the
  first parameter has the bucket range \<open>[0, 8)\<close>, the second \<open>[8, 12)\<close>, and 4 elements
  stay unfilled.
\<close>

theorem C3_fragment_placement:
  assumes "0 < alignment self"
    and "0 < default_shard_size self * distributed_size self"
    and "param_fragments self p = None"
  shows "(\<exists>self'. init_param_state self p gid pid = Some self' \<and>
            length (ensure_bucket self) \<le> length (buckets self') \<and>
            take (length (ensure_bucket self) - 1) (buckets self') = butlast (ensure_bucket self) \<and>
            extends (alignment self) (last (ensure_bucket self))
              (buckets self' ! (length (ensure_bucket self) - 1)) \<and>
            (\<forall>i. length (ensure_bucket self) \<le> i \<and> i < length (buckets self') \<longrightarrow>
               extends (alignment self)
                 (new_StateBucket (default_shard_size self * distributed_size self)
                    (default_shard_size self)
                    (contiguous_buffer_offset (buckets self' ! (i - 1)) +
                     bucket_size (buckets self' ! (i - 1))))
                 (buckets self' ! i)) \<and>
            (\<forall>i. length (ensure_bucket self) - 1 \<le> i \<and> Suc i < length (buckets self') \<longrightarrow>
               \<not> able_to_fill (buckets self' ! i) \<or>
               bucket_size (buckets self' ! i) \<le>
                 round_to_multiple (filled_size (buckets self' ! i)) (alignment self) True)) \<and>
         (\<exists>s. init_params scenario None = Some (Inr s) \<and>
            map (\<lambda>b. (bucket_size b, filled_size b, bucket_size b - filled_size b,
                      map (\<lambda>f. (param_id f, bucket_range f)) (fragments b))) (buckets s) =
              [(16, 12, 4, [(0, (0, 8)), (1, (8, 12))])])"
proof -
  let ?eb = "ensure_bucket self"
  let ?A = "alignment self"
  obtain bs b frags where sp: "split_param ?A (default_shard_size self)
       (distributed_size self) (distributed_rank self) gid pid (int (numel self p))
       (butlast ?eb) (last ?eb) [] 0 = Some (bs, b, frags)"
    and ip: "init_param_state self p gid pid =
       Some (self\<lparr>buckets := bs @ [b], param_fragments := (param_fragments self)(p \<mapsto> frags)\<rparr>)"
    using init_param_state_unfold[OF assms] by blast
  define R where "R = bs @ [b]"
  define c where "c = length (butlast ?eb)"
  from split_param_mapped[OF assms(1,2), of "distributed_rank self" gid pid "int (numel self p)"
        "butlast ?eb" "last ?eb" "[]" 0] sp
  have tk: "take c R = butlast ?eb"
    and m: "mapped ?A (default_shard_size self) (distributed_size self) c (last ?eb) R"
    unfolding R_def c_def by auto
  have ne: "?eb \<noteq> []" by (simp add: ensure_bucket_def)
  have c': "c = length ?eb - 1" unfolding c_def by simp
  have lc: "length ?eb = Suc c" using ne c' by (cases ?eb) simp_all
  from m have 1: "c < length R"
    and 2: "extends ?A (last ?eb) (R ! c)"
    and 3: "\<forall>i. c < i \<and> i < length R \<longrightarrow>
        extends ?A (new_StateBucket (default_shard_size self * distributed_size self)
                     (default_shard_size self)
                     (contiguous_buffer_offset (R ! (i - 1)) + bucket_size (R ! (i - 1))))
          (R ! i)"
    and 4: "\<forall>i. c \<le> i \<and> Suc i < length R \<longrightarrow> \<not> has_room ?A (R ! i)"
    unfolding mapped_def by blast+
  have a1: "length ?eb \<le> length R" using 1 lc by simp
  have a3: "\<forall>i. length ?eb \<le> i \<and> i < length R \<longrightarrow>
        extends ?A (new_StateBucket (default_shard_size self * distributed_size self)
                     (default_shard_size self)
                     (contiguous_buffer_offset (R ! (i - 1)) + bucket_size (R ! (i - 1))))
          (R ! i)"
    using 3 lc by simp
  have a4: "\<forall>i. length ?eb - 1 \<le> i \<and> Suc i < length R \<longrightarrow>
               \<not> able_to_fill (R ! i) \<or>
               bucket_size (R ! i) \<le> round_to_multiple (filled_size (R ! i)) ?A True"
    using 4 c' by (auto simp: has_room_def)
  have bk: "buckets (self\<lparr>buckets := bs @ [b],
                param_fragments := (param_fragments self)(p \<mapsto> frags)\<rparr>) = R"
    by (simp add: R_def)
  have first: "\<exists>self'. init_param_state self p gid pid = Some self' \<and>
            length ?eb \<le> length (buckets self') \<and>
            take (length ?eb - 1) (buckets self') = butlast ?eb \<and>
            extends ?A (last ?eb) (buckets self' ! (length ?eb - 1)) \<and>
            (\<forall>i. length ?eb \<le> i \<and> i < length (buckets self') \<longrightarrow>
               extends ?A
                 (new_StateBucket (default_shard_size self * distributed_size self)
                    (default_shard_size self)
                    (contiguous_buffer_offset (buckets self' ! (i - 1)) +
                     bucket_size (buckets self' ! (i - 1))))
                 (buckets self' ! i)) \<and>
            (\<forall>i. length ?eb - 1 \<le> i \<and> Suc i < length (buckets self') \<longrightarrow>
               \<not> able_to_fill (buckets self' ! i) \<or>
               bucket_size (buckets self' ! i) \<le>
                 round_to_multiple (filled_size (buckets self' ! i)) ?A True)"
    apply (rule exI[of _ "self\<lparr>buckets := bs @ [b],
                param_fragments := (param_fragments self)(p \<mapsto> frags)\<rparr>"])
    unfolding bk
    using ip a1 tk 2 a3 a4 c' by simp
  have sc: "\<exists>s. init_params scenario None = Some (Inr s) \<and>
            map (\<lambda>b. (bucket_size b, filled_size b, bucket_size b - filled_size b,
                      map (\<lambda>f. (param_id f, bucket_range f)) (fragments b))) (buckets s) =
              [(16, 12, 4, [(0, (0, 8)), (1, (8, 12))])]"
    by (simp add: scenario_def eval_defs split_param.simps)
  from first sc show ?thesis by (rule conjI)
qed

text \<open>
  The theorem at the state \<^verbatim>\<open>init_params_bucket\<close> leaves for parameters of 10 and 70
  elements: the last bucket is marked not fillable with 26 of its 64 elements unused,
  and mapping a parameter of 5 elements opens a third bucket and places it at \<open>[0, 5)\<close>.
\<close>

theorem C3_fragment_placement_witness:
  "init_params_bucket ex_padded [0, 1] = Some (Inr ex_padded_state) \<and>
   map (\<lambda>b. (able_to_fill b, bucket_size b, filled_size b,
                  map (\<lambda>f. (param_id f, bucket_range f)) (fragments b)))
         (buckets ex_padded_state) =
     [(False, 64, 64, [(0, (0, 10)), (1, (32, 64))]),
      (False, 64, 38, [(1, (0, 38)), (0, (64, 64))])] \<and>
   0 < alignment ex_padded_state \<and>
   0 < default_shard_size ex_padded_state * distributed_size ex_padded_state \<and>
   param_fragments ex_padded_state 2 = None \<and>
   length (ensure_bucket ex_padded_state) = 2 \<and>
   map (\<lambda>b. (able_to_fill b, bucket_size b, filled_size b,
                  map (\<lambda>f. (param_id f, bucket_range f)) (fragments b)))
         (buckets (the (init_param_state ex_padded_state 2 0 2))) =
     [(False, 64, 64, [(0, (0, 10)), (1, (32, 64))]),
      (False, 64, 38, [(1, (0, 38)), (0, (64, 64))]),
      (True, 64, 5, [(2, (0, 5))])] \<and>
   ((\<exists>self'. init_param_state ex_padded_state 2 0 2 = Some self' \<and>
            length (ensure_bucket ex_padded_state) \<le> length (buckets self') \<and>
            take (length (ensure_bucket ex_padded_state) - 1) (buckets self') =
              butlast (ensure_bucket ex_padded_state) \<and>
            extends (alignment ex_padded_state) (last (ensure_bucket ex_padded_state))
              (buckets self' ! (length (ensure_bucket ex_padded_state) - 1)) \<and>
            (\<forall>i. length (ensure_bucket ex_padded_state) \<le> i \<and> i < length (buckets self') \<longrightarrow>
               extends (alignment ex_padded_state)
                 (new_StateBucket
                    (default_shard_size ex_padded_state * distributed_size ex_padded_state)
                    (default_shard_size ex_padded_state)
                    (contiguous_buffer_offset (buckets self' ! (i - 1)) +
                     bucket_size (buckets self' ! (i - 1))))
                 (buckets self' ! i)) \<and>
            (\<forall>i. length (ensure_bucket ex_padded_state) - 1 \<le> i \<and>
                 Suc i < length (buckets self') \<longrightarrow>
               \<not> able_to_fill (buckets self' ! i) \<or>
               bucket_size (buckets self' ! i) \<le>
                 round_to_multiple (filled_size (buckets self' ! i))
                   (alignment ex_padded_state) True)) \<and>
         (\<exists>s. init_params scenario None = Some (Inr s) \<and>
            map (\<lambda>b. (bucket_size b, filled_size b, bucket_size b - filled_size b,
                      map (\<lambda>f. (param_id f, bucket_range f)) (fragments b))) (buckets s) =
              [(16, 12, 4, [(0, (0, 8)), (1, (8, 12))])]))"
proof -
  have h1: "0 < alignment ex_padded_state" by (simp add: ex_padded_fields)
  have h2: "0 < default_shard_size ex_padded_state * distributed_size ex_padded_state"
    by (simp add: ex_padded_fields)
  note h3 = ex_padded_fields(4)
  note t = C3_fragment_placement[OF h1 h2 h3, of 0 2]
  show ?thesis
    by (rule conjI[OF ex_padded_run conjI[OF ex_padded_buckets conjI[OF h1 conjI[OF h2
          conjI[OF h3 conjI[OF ex_padded_fields(5) conjI[OF ex_padded_next t]]]]]]])
qed

text \<open>
  Claim C3 as stated fails: with buckets of 32 elements and the alignment unit 32, the
  second of two parameters of one element opens a new bucket while the first bucket
  holds one element of 32.
\<close>

theorem C3_counterexample:
  "map (\<lambda>b. (bucket_size b, filled_size b))
     (buckets (projr (the (init_params ex_small None)))) = [(32, 1), (32, 1)]"
  by (simp add: ex_small_def eval_defs split_param.simps)

section \<open>Release of the gradient\<close>

text \<open>
  Claim C10. When \<^verbatim>\<open>_grad_copy(param)\<close> returns, \<^verbatim>\<open>param.grad\<close> is \<^verbatim>\<open>None\<close>; the same holds
  when the gradient-ready callback returns after it has called \<^verbatim>\<open>_grad_copy\<close>, which it
  does when the copying of gradients is greedy.
\<close>

theorem C10_grad_copy_releases_gradient:
  "(grad_copy self p = Some (Inr self') \<longrightarrow> grad self' p = None) \<and>
   (greedy_grad_copy self \<longrightarrow> post_backward_hook pg self p gid pid = Some (Inr self'') \<longrightarrow>
      grad self'' p = None)"
proof (intro conjI impI)
  assume "grad_copy self p = Some (Inr self')"
  then show "grad self' p = None" by (rule grad_copy_clears_grad)
next
  assume g: "greedy_grad_copy self"
    and h: "post_backward_hook pg self p gid pid = Some (Inr self'')"
  from h have ne: "\<not> pre_forward_hook_is_enabled self p"
    by (auto simp: post_backward_hook_def split: if_splits)
  from h ne obtain s1 where
    s1: "(if param_fragments self p = None then init_param_state self p gid pid else Some self) = Some s1"
    by (auto simp: post_backward_hook_def Let_def split: option.splits)
  have g1: "greedy_grad_copy s1"
    using s1 g init_param_state_frame[of self p gid pid s1] by (auto split: if_splits)
  from h ne s1 g1 obtain s2 where s2: "grad_copy s1 p = Some (Inr s2)"
    and r: "(if overlap_grad_sync s2
             then Some (try_start_bucket_grad_sync pg s2 [p] (param_fragments self p = None))
             else Some (Inr s2)) = Some (Inr self'')"
    by (auto simp: post_backward_hook_def Let_def split: option.splits sum.splits if_splits)
  have n2: "grad s2 p = None" using s2 by (rule grad_copy_clears_grad)
  show "grad self'' p = None"
  proof (cases "overlap_grad_sync s2")
    case True
    with r have "try_start_bucket_grad_sync pg s2 [p] (param_fragments self p = None) = Inr self''"
      by simp
    from same_but_grads_fields(1)[OF try_start_same[OF this]] n2 show ?thesis by simp
  next
    case False
    with r n2 show ?thesis by simp
  qed
qed

theorem C10_grad_copy_releases_gradient_witness:
  "grad tiny 0 = Some [5, 7] \<and>
   (\<exists>s. grad_copy tiny 0 = Some (Inr s) \<and> grad s 0 = None) \<and>
   greedy_grad_copy tiny \<and>
   (\<exists>s. post_backward_hook pg0 tiny 0 0 0 = Some (Inr s) \<and> grad s 0 = None)"
proof -
  have a: "grad tiny 0 = Some [5, 7]" by (simp add: tiny_def)
  have g: "greedy_grad_copy tiny" by (simp add: tiny_def)
  obtain s where s: "grad_copy tiny 0 = Some (Inr s)"
    by (simp add: tiny_def engine_defs eval_defs split_param.simps eval_nat_numeral)
  obtain t where t: "post_backward_hook pg0 tiny 0 0 0 = Some (Inr t)"
    by (simp add: tiny_def pg0_def engine_defs eval_defs split_param.simps eval_nat_numeral)
  note th = C10_grad_copy_releases_gradient[of tiny 0 s pg0 0 0 t]
  from th s have b: "grad s 0 = None" by blast
  from th g t have c: "grad t 0 = None" by blast
  from a s b g t c show ?thesis by blast
qed

section \<open>Order of the callbacks\<close>

text \<open>
  Claim C9, as amended. The fatal usage error of overlap mode is raised by the
  gradient-ready callback: a post-backward hook that runs while the pre-forward hook of
  its parameter is still enabled (the parameter has not been read since the step that
  enabled it) fails with a \<^verbatim>\<open>RuntimeError\<close> that describes the misuse. The pre-forward hook
  of a parameter that has no fragments returns at once and changes nothing, so a read of
  such a parameter raises no error.
\<close>

theorem C9_hook_order_error:
  "(pre_forward_hook_is_enabled self p \<longrightarrow>
      post_backward_hook pg self p gid pid =
        Some (Inl (RuntimeError
          (''A parameter called its post-backward hook before its pre-forward hook. '' @
           ''Please manually interact with the parameter before the forward pass '' @
           ''(e.g. by calling data_ptr) or run DistributedFusedAdam with '' @
           ''overlap_param_sync=False.'')))) \<and>
   (param_fragments self p = None \<longrightarrow>
      pre_forward_hook param_engine self p = Inr self \<and>
      (\<exists>s. getattribute_with_pre_forward_hook param_engine self p = Inr s))"
  by (simp add: post_backward_hook_def pre_forward_hook_def
      getattribute_with_pre_forward_hook_def)

theorem C9_hook_order_error_witness:
  "pre_forward_hook_is_enabled overlap_state 0 \<and>
   post_backward_hook pg0 overlap_state 0 0 0 =
        Some (Inl (RuntimeError
          (''A parameter called its post-backward hook before its pre-forward hook. '' @
           ''Please manually interact with the parameter before the forward pass '' @
           ''(e.g. by calling data_ptr) or run DistributedFusedAdam with '' @
           ''overlap_param_sync=False.''))) \<and>
   param_fragments overlap_state 0 = None \<and>
   pre_forward_hook (\<lambda>_ _. Inl KeyError) overlap_state 0 = Inr overlap_state \<and>
   (\<exists>s. getattribute_with_pre_forward_hook (\<lambda>_ _. Inl KeyError) overlap_state 0 = Inr s)"
proof -
  have a: "pre_forward_hook_is_enabled overlap_state 0"
    by (simp add: overlap_state_def)
  have b: "param_fragments overlap_state 0 = None"
    by (simp add: overlap_state_def tiny_def)
  note th = C9_hook_order_error[of overlap_state 0 pg0 0 0 "\<lambda>_ _. Inl KeyError"]
  from th a b show ?thesis by blast
qed

text \<open>
  Claim C9 as stated fails: in overlap mode, with no post-backward hook ever run, the
  read of a parameter that was never seen disables its hook and returns without an
  error.
\<close>

theorem C9_counterexample:
  "overlap_param_sync overlap_state \<and>
   param_fragments overlap_state 0 = None \<and>
   status_log overlap_state = [] \<and>
   getattribute_with_pre_forward_hook (\<lambda>_ _. Inl KeyError) overlap_state 0 =
     Inr (overlap_state\<lparr>pre_forward_hook_is_enabled := (\<lambda>_. True)(0 := False)\<rparr>)"
  by (simp add: overlap_state_def tiny_def pre_forward_hook_def
      getattribute_with_pre_forward_hook_def)

section \<open>Forced synchronization\<close>

text \<open>
  Claim C5. When \<^verbatim>\<open>_force_bucket_grad_sync\<close> returns, every bucket id in the range of the
  state buckets has a gradient bucket with status \<open>READY\<close> and a local gradient shard
  that is not \<^verbatim>\<open>None\<close>. A bucket that was \<open>PARTIALLY_FILLED\<close> or \<open>FULLY_FILLED\<close> has been
  synchronized with the data it had: its shard is what the collectives make of its
  buffer (zeros when it had none), added to the shard it had before when there was one.
  A bucket that was \<open>READY\<close>, also one that was never filled, keeps its shard, and a
  missing shard is a shard of zeros.
\<close>

theorem C5_force_bucket_grad_sync:
  assumes "force_bucket_grad_sync pg self = Inr self'" and "k < length (buckets self)"
  shows "buckets self' = buckets self \<and>
         k \<in> fst ` set (grads_buckets self') \<and>
         status (gbucket self' k) = READY \<and>
         grads_shard (gbucket self' k) \<noteq> None \<and>
         (status (gbucket self k) = PARTIALLY_FILLED \<or> status (gbucket self k) = FULLY_FILLED \<longrightarrow>
            (\<exists>shard. grads_shard (gbucket self' k) = Some shard \<and>
               (case grads_shard (gbucket self k) of
                  None \<Rightarrow> Inr (communicated pg self
                                 (case grads_bucket (gbucket self k) of
                                    None \<Rightarrow> zeros (bucket_size (buckets self ! k))
                                  | Some xs \<Rightarrow> xs))
                | Some g \<Rightarrow> tensor_add g (communicated pg self
                                 (case grads_bucket (gbucket self k) of
                                    None \<Rightarrow> zeros (bucket_size (buckets self ! k))
                                  | Some xs \<Rightarrow> xs)))
               = Inr shard)) \<and>
         (status (gbucket self k) = READY \<longrightarrow>
            grads_shard (gbucket self' k) =
              Some (case grads_shard (gbucket self k) of
                      None \<Rightarrow> zeros (shard_size (buckets self ! k)) | Some g \<Rightarrow> g))"
proof -
  note keys = force_keys[OF assms(1)]
  have 1: "buckets self' = buckets self" using keys by simp
  have 2: "k \<in> fst ` set (grads_buckets self')" using keys assms(2) by auto
  show ?thesis
  proof (cases "settled self k")
    case True
    from force_settled[OF assms(1) True] obtain b where
      f: "finished (gbucket self k) b" and r: "status b = READY"
      and g: "gbucket self' k =
          (if k < length (buckets self) \<and> grads_shard b = None
           then b\<lparr>grads_shard := Some (zeros (shard_size (buckets self ! k)))\<rparr> else b)"
      by blast
    have 3: "status (gbucket self' k) = READY" using g r by simp
    have 4: "grads_shard (gbucket self' k) \<noteq> None" using g assms(2) by auto
    have 5: "\<not> (status (gbucket self k) = PARTIALLY_FILLED \<or>
                 status (gbucket self k) = FULLY_FILLED)"
      using True by (auto simp: settled_def)
    have 6: "grads_shard (gbucket self' k) =
              Some (case grads_shard (gbucket self k) of
                      None \<Rightarrow> zeros (shard_size (buckets self ! k)) | Some g \<Rightarrow> g)"
      if "status (gbucket self k) = READY"
    proof -
      have "b = gbucket self k" using finished_not_syncing[OF f] that by simp
      then show ?thesis using g assms(2) by (auto split: option.splits)
    qed
    show ?thesis using 1 2 3 4 5 6 by blast
  next
    case False
    note u = force_unsettled[OF assms(1) False]
    have 5: "status (gbucket self k) \<noteq> READY" using False by (auto simp: settled_def)
    from u have 4: "grads_shard (gbucket self' k) \<noteq> None" by auto
    show ?thesis using 1 2 u 4 5 by blast
  qed
qed

text \<open>
  The theorem at \<open>half_filled\<close> with a process group of one rank: the first bucket goes
  from \<open>PARTIALLY_FILLED\<close> to \<open>READY\<close> with the shard \<open>[5, 7]\<close> of its buffer, the second,
  never filled, gets a shard of zeros.
\<close>

theorem C5_force_bucket_grad_sync_witness:
  "map (\<lambda>b. (bucket_size b, shard_size b)) (buckets half_filled) = [(2, 2), (2, 2)] \<and>
   grads_buckets half_filled =
     [(0, \<lparr>grads_shard = None, grads_bucket = Some [5, 7], sync_grads_shard = None,
            status = PARTIALLY_FILLED, grads_generated = {}\<rparr>)] \<and>
   (\<exists>s. force_bucket_grad_sync pg0 half_filled = Inr s \<and>
        map fst (grads_buckets s) = [0, 1] \<and>
        map (\<lambda>k. (status (gbucket s k), grads_shard (gbucket s k))) [0, 1] =
          [(READY, Some [5, 7]), (READY, Some [0, 0])])"
proof -
  note f = half_filled_fields
  have len: "length (buckets half_filled) = 2"
    using arg_cong[OF f(1), of length] by simp
  have sz: "shard_size (buckets half_filled ! 1) = 2"
    using arg_cong[OF f(1), of "\<lambda>xs. snd (xs ! 1)"] len by simp
  have b0: "gbucket half_filled 0 =
     \<lparr>grads_shard = None, grads_bucket = Some [5, 7], sync_grads_shard = None,
       status = PARTIALLY_FILLED, grads_generated = {}\<rparr>"
    and b1: "gbucket half_filled 1 = new_GradientBucket"
    by (simp_all add: gbucket_def f(2))
  obtain s where s: "force_bucket_grad_sync pg0 half_filled = Inr s"
    and k: "map fst (grads_buckets s) = [0, 1]"
    by (simp add: half_filled_def tiny_def pg0_def engine_defs eval_defs split_param.simps
          eval_nat_numeral)
  have l0: "(0::nat) < length (buckets half_filled)" and l1: "1 < length (buckets half_filled)"
    using len by simp_all
  note t0 = C5_force_bucket_grad_sync[OF s l0]
  note t1 = C5_force_bucket_grad_sync[OF s l1]
  have c: "communicated pg0 half_filled [5, 7] = [5, 7]"
    by (simp add: communicated_def f(3,4))
  have r0: "status (gbucket s 0) = READY" using t0 by blast
  have r1: "status (gbucket s 1) = READY" using t1 by blast
  have "\<exists>shard. grads_shard (gbucket s 0) = Some shard \<and> Inr [5, 7] = (Inr shard :: error + int list)"
    using t0 b0 c by simp
  then have s0: "grads_shard (gbucket s 0) = Some [5, 7]" by auto
  have s1: "grads_shard (gbucket s 1) = Some [0, 0]"
    using t1 b1 sz by (simp add: new_GradientBucket_def zeros_def eval_nat_numeral)
  show ?thesis using f(1,2) s k r0 r1 s0 s1 by simp
qed

end
